theory Spec2Isabelle
  imports Main "HOL-Library.Word"
begin

unbundle bit_operations_syntax

section \<open>The allocator of main.cpp as a state-passing program\<close>

text \<open>
  The target is 64-bit Windows: \<open>size_t\<close> and pointers are 64-bit words, and
  \<open>sizeof(BlockHeader)\<close> is 16 (an 8-byte \<open>size_t\<close>, three \<open>bool\<close>s, padding).
  A pointer is the word of its address; \<open>nullptr\<close> is 0. All address and size
  arithmetic wraps modulo \<open>2 ^ 64\<close>, as in the source.
\<close>

type_synonym size_t = "64 word"
type_synonym addr = "64 word"

record BlockHeader =
  blk_size :: size_t
  is_free :: bool
  is_first :: bool
  is_last :: bool

text \<open>The \<open>next\<close> link of an arena is the tail of the list that holds it.\<close>

record Arena =
  arena_size :: size_t
  arena_base :: addr

text \<open>
  The global state. \<open>memory\<close> is the raw memory seen as headers: \<open>memory s a\<close> is the
  header last written at address \<open>a\<close>, or \<open>None\<close> where no header was ever written.
  Headers are never removed from memory: a block that coalescing absorbs leaves its
  stale header behind, as in the source. \<open>block_map\<close> holds the keys of the
  \<open>unordered_map\<close> in its iteration order; the value stored under a key is always
  the key itself (the header's own address), so the keys are the whole map.
\<close>

record allocator =
  default_arena_size :: size_t
  arena_list :: "Arena list"
  block_map :: "addr list"
  memory :: "addr \<Rightarrow> BlockHeader option"

definition header_size :: size_t where
  "header_size = 16"

definition configure :: "size_t \<Rightarrow> allocator" where
  "configure n =
     \<lparr>default_arena_size = n, arena_list = [], block_map = [], memory = (\<lambda>a. None)\<rparr>"

definition align :: "size_t \<Rightarrow> size_t" where
  "align n = (n + 3) AND NOT 3"

text \<open>
  \<open>VirtualAlloc\<close> is the operating system's: it is a parameter, a function from the
  requested size to the base address it grants (0 when it refuses). An operation
  calls it at most once.
\<close>

definition arena_create :: "(size_t \<Rightarrow> addr) \<Rightarrow> allocator \<Rightarrow> size_t \<Rightarrow> Arena option \<times> allocator" where
  "arena_create VirtualAlloc s n =
     (let sz = align (max n (default_arena_size s));
          base = VirtualAlloc sz
      in if base = 0 then (None, s)
         else
           let arena = \<lparr>arena_size = sz, arena_base = base\<rparr>;
               initial_block = \<lparr>blk_size = sz - header_size, is_free = True,
                                is_first = True, is_last = True\<rparr>
           in (Some arena,
               s\<lparr>arena_list := arena # arena_list s,
                 memory := (memory s)(base \<mapsto> initial_block),
                 block_map := List.insert base (block_map s)\<rparr>))"

text \<open>
  \<open>block_split\<close> reads the header at \<open>block\<close>; reading an address that holds no
  header is undefined and gives \<open>None\<close>. The three writes happen in the source's
  order, so a new block that lands on \<open>block\<close> itself (a wrapped sum) is overwritten
  by the two writes that follow.
\<close>

definition block_split :: "allocator \<Rightarrow> addr \<Rightarrow> size_t \<Rightarrow> allocator option" where
  "block_split s block n =
     (case memory s block of
        None \<Rightarrow> None
      | Some hdr \<Rightarrow>
          let sz = align n in
          if sz + header_size + 4 \<le> blk_size hdr then
            let new_block = block + header_size + sz;
                new_hdr = \<lparr>blk_size = blk_size hdr - sz - header_size, is_free = True,
                           is_first = False, is_last = is_last hdr\<rparr>;
                cur = (if new_block = block then new_hdr else hdr)
            in Some (s\<lparr>memory := (memory s)(new_block \<mapsto> new_hdr,
                                 block \<mapsto> cur\<lparr>blk_size := sz, is_last := False\<rparr>),
                       block_map := List.insert new_block (block_map s)\<rparr>)
          else Some s)"

text \<open>
  The loop of \<open>block_unite\<close>. \<open>visited\<close> are the keys before the iterator, the head of
  the third argument is the key the iterator stands on. Erasing another key keeps
  the iterator and the order of the other keys (\<open>removeAll\<close>: a key occurs once in a
  map); erasing the key the iterator stands on (a block whose successor address is
  its own) invalidates it, which is undefined: \<open>None\<close>.
\<close>

function block_unite_loop ::
  "(addr \<Rightarrow> BlockHeader option) \<Rightarrow> addr list \<Rightarrow> addr list \<Rightarrow>
     ((addr \<Rightarrow> BlockHeader option) \<times> addr list) option" where
  "block_unite_loop mem visited [] = Some (mem, visited)"
| "block_unite_loop mem visited (block # rest) =
     (case mem block of
        None \<Rightarrow> None
      | Some hdr \<Rightarrow>
          if is_free hdr then
            let next_block = block + header_size + blk_size hdr in
            if next_block \<in> set (visited @ block # rest) then
              (case mem next_block of
                 None \<Rightarrow> None
               | Some next_hdr \<Rightarrow>
                   if is_free next_hdr then
                     if next_block = block then None
                     else block_unite_loop
                            (mem(block \<mapsto> hdr\<lparr>blk_size := blk_size hdr + (header_size + blk_size next_hdr),
                                               is_last := is_last next_hdr\<rparr>))
                            (removeAll next_block visited) (block # removeAll next_block rest)
                   else block_unite_loop mem (visited @ [block]) rest)
            else block_unite_loop mem (visited @ [block]) rest
          else block_unite_loop mem (visited @ [block]) rest)"
  by pat_completeness auto
termination
proof (relation "measure (\<lambda>(mem, visited, todo). length visited + 2 * length todo)", goal_cases)
  case 1
  show ?case by simp
next
  case (2 mem visited block rest hdr next_block next_hdr)
  then have "next_block \<in> set visited \<or> next_block \<in> set rest"
    by auto
  then have "length (removeAll next_block visited) + 2 * length (removeAll next_block rest)
      < length visited + 2 * length rest"
  proof
    assume "next_block \<in> set visited"
    then have "length (removeAll next_block visited) < length visited"
      by (rule length_removeAll_less)
    moreover have "length (removeAll next_block rest) \<le> length rest"
      by simp
    ultimately show ?thesis
      by linarith
  next
    assume "next_block \<in> set rest"
    then have "length (removeAll next_block rest) < length rest"
      by (rule length_removeAll_less)
    moreover have "length (removeAll next_block visited) \<le> length visited"
      by simp
    ultimately show ?thesis
      by linarith
  qed
  then show ?case
    by simp
qed simp_all

definition block_unite :: "allocator \<Rightarrow> allocator option" where
  "block_unite s =
     (case block_unite_loop (memory s) [] (block_map s) of
        None \<Rightarrow> None
      | Some (mem, keys) \<Rightarrow> Some (s\<lparr>memory := mem, block_map := keys\<rparr>))"

text \<open>The assignment \<open>block->is_free = v\<close> to the header at \<open>block\<close>.\<close>

definition write_is_free :: "allocator \<Rightarrow> addr \<Rightarrow> bool \<Rightarrow> allocator option" where
  "write_is_free s block v =
     (case memory s block of
        None \<Rightarrow> None
      | Some hdr \<Rightarrow> Some (s\<lparr>memory := (memory s)(block \<mapsto> hdr\<lparr>is_free := v\<rparr>)\<rparr>))"

text \<open>
  The walk of \<open>block_alloc\<close>. It may run forever (a block whose header and size add
  up to 0 modulo \<open>2 ^ 64\<close>), so it is a partial function: \<open>None\<close> is a walk that does
  not return, or that reads an address holding no header. The result is the
  returned pointer with the new state.
\<close>

partial_function (option) block_alloc_loop ::
  "allocator \<Rightarrow> Arena \<Rightarrow> size_t \<Rightarrow> addr \<Rightarrow> (addr \<times> allocator) option" where
  "block_alloc_loop s arena n base =
     (if base < arena_base arena + arena_size arena then
        (case memory s base of
           None \<Rightarrow> None
         | Some block \<Rightarrow>
             if is_free block \<and> n \<le> blk_size block then
               (case block_split s base n of
                  None \<Rightarrow> None
                | Some s1 \<Rightarrow>
                    (case write_is_free s1 base False of
                       None \<Rightarrow> None
                     | Some s2 \<Rightarrow> Some (base + header_size, s2)))
             else block_alloc_loop s arena n (base + header_size + blk_size block))
      else Some (0, s))"

declare block_alloc_loop.simps [code]

definition block_alloc :: "allocator \<Rightarrow> Arena \<Rightarrow> size_t \<Rightarrow> (addr \<times> allocator) option" where
  "block_alloc s arena n = block_alloc_loop s arena (align n) (arena_base arena)"

text \<open>The \<open>for\<close> loop of \<open>mem_alloc\<close> over the arena list.\<close>

fun mem_alloc_scan :: "allocator \<Rightarrow> Arena list \<Rightarrow> size_t \<Rightarrow> (addr \<times> allocator) option" where
  "mem_alloc_scan s [] n = Some (0, s)"
| "mem_alloc_scan s (arena # rest) n =
     (case block_alloc s arena n of
        None \<Rightarrow> None
      | Some (ptr, s1) \<Rightarrow> if ptr \<noteq> 0 then Some (ptr, s1) else mem_alloc_scan s1 rest n)"

definition mem_alloc :: "(size_t \<Rightarrow> addr) \<Rightarrow> allocator \<Rightarrow> size_t \<Rightarrow> (addr \<times> allocator) option" where
  "mem_alloc VirtualAlloc s n =
     (if n = 0 then Some (0, s)
      else
        let sz = align n in
        case mem_alloc_scan s (arena_list s) sz of
          None \<Rightarrow> None
        | Some (ptr, s1) \<Rightarrow>
            if ptr \<noteq> 0 then Some (ptr, s1)
            else
              (case arena_create VirtualAlloc s1 (sz + header_size) of
                 (None, s2) \<Rightarrow> Some (0, s2)
               | (Some new_arena, s2) \<Rightarrow> block_alloc s2 new_arena sz))"

definition mem_free :: "allocator \<Rightarrow> addr \<Rightarrow> allocator option" where
  "mem_free s ptr =
     (if ptr = 0 then Some s
      else if ptr - header_size \<notin> set (block_map s) then Some s
      else
        (case write_is_free s (ptr - header_size) True of
           None \<Rightarrow> None
         | Some s1 \<Rightarrow> block_unite s1))"

text \<open>
  Payload bytes are not part of the state, so the \<open>memcpy\<close> of \<open>mem_realloc\<close> leaves
  no trace here.
\<close>

definition mem_realloc :: "(size_t \<Rightarrow> addr) \<Rightarrow> allocator \<Rightarrow> addr \<Rightarrow> size_t \<Rightarrow> (addr \<times> allocator) option" where
  "mem_realloc VirtualAlloc s ptr n =
     (if ptr = 0 then mem_alloc VirtualAlloc s n
      else
        let sz = align n in
        if ptr - header_size \<notin> set (block_map s) then Some (0, s)
        else
          (case memory s (ptr - header_size) of
             None \<Rightarrow> None
           | Some block \<Rightarrow>
               if sz \<le> blk_size block then
                 (case block_split s (ptr - header_size) sz of
                    None \<Rightarrow> None
                  | Some s1 \<Rightarrow> Some (ptr, s1))
               else
                 (case mem_alloc VirtualAlloc s sz of
                    None \<Rightarrow> None
                  | Some (new_ptr, s1) \<Rightarrow>
                      if new_ptr = 0 then Some (0, s1)
                      else
                        (case mem_free s1 ptr of
                           None \<Rightarrow> None
                         | Some s2 \<Rightarrow> Some (new_ptr, s2)))))"

text \<open>
  The walk of \<open>mem_show\<close> over one arena: the blocks it prints, each with its
  address, in the order it prints them.
\<close>

partial_function (option) mem_show_loop ::
  "(addr \<Rightarrow> BlockHeader option) \<Rightarrow> addr \<Rightarrow> addr \<Rightarrow> (addr \<times> BlockHeader) list option" where
  "mem_show_loop mem limit base =
     (if base < limit then
        (case mem base of
           None \<Rightarrow> None
         | Some block \<Rightarrow>
             Option.bind (mem_show_loop mem limit (base + header_size + blk_size block))
               (\<lambda>shown. Some ((base, block) # shown)))
      else Some [])"

declare mem_show_loop.simps [code]

definition mem_show_arena :: "allocator \<Rightarrow> Arena \<Rightarrow> (addr \<times> BlockHeader) list option" where
  "mem_show_arena s arena =
     mem_show_loop (memory s) (arena_base arena + arena_size arena) (arena_base arena)"

text \<open>
  \<open>mem_show\<close> as a whole: the blocks of every arena, the arenas in list order.
\<close>

fun mem_show_arenas :: "allocator \<Rightarrow> Arena list \<Rightarrow> (addr \<times> BlockHeader) list option" where
  "mem_show_arenas s [] = Some []"
| "mem_show_arenas s (arena # rest) =
     (case mem_show_arena s arena of
        None \<Rightarrow> None
      | Some shown \<Rightarrow> map_option (\<lambda>more. shown @ more) (mem_show_arenas s rest))"

definition mem_show :: "allocator \<Rightarrow> (addr \<times> BlockHeader) list option" where
  "mem_show s = mem_show_arenas s (arena_list s)"

section \<open>Predicates the properties are stated with\<close>

text \<open>
  First fit, in the words of the specification: of the blocks in scan order, the
  first free one whose size is at least the requested size; the pointer handed out
  is the address right after its header.
\<close>

definition fits :: "size_t \<Rightarrow> addr \<times> BlockHeader \<Rightarrow> bool" where
  "fits n = (\<lambda>(block, hdr). is_free hdr \<and> n \<le> blk_size hdr)"

definition first_fit :: "(addr \<times> BlockHeader) list \<Rightarrow> size_t \<Rightarrow> addr option" where
  "first_fit blocks n = map_option (\<lambda>(block, hdr). block + header_size) (find (fits n) blocks)"


text \<open>
  A tracked free block is a key of the block map whose header is flagged free. A
  block is settled when it has a header and is not a free block followed at its
  successor address by a tracked free block: the test of \<open>block_unite\<close> fails on it.
\<close>

definition tracked_free :: "(addr \<Rightarrow> BlockHeader option) \<Rightarrow> addr list \<Rightarrow> addr \<Rightarrow> bool" where
  "tracked_free mem keys a =
     (a \<in> set keys \<and> (case mem a of None \<Rightarrow> False | Some hdr \<Rightarrow> is_free hdr))"

definition settled :: "(addr \<Rightarrow> BlockHeader option) \<Rightarrow> addr list \<Rightarrow> addr \<Rightarrow> bool" where
  "settled mem keys block =
     (case mem block of
        None \<Rightarrow> False
      | Some hdr \<Rightarrow>
          \<not> (is_free hdr \<and> tracked_free mem keys (block + header_size + blk_size hdr)))"

definition merged :: "BlockHeader \<Rightarrow> BlockHeader \<Rightarrow> BlockHeader" where
  "merged hdr next_hdr =
     hdr\<lparr>blk_size := blk_size hdr + (header_size + blk_size next_hdr), is_last := is_last next_hdr\<rparr>"

definition blocks_in_range :: "(addr \<Rightarrow> BlockHeader option) \<Rightarrow> addr list \<Rightarrow> bool" where
  "blocks_in_range mem keys =
     list_all (\<lambda>b. case mem b of
                      None \<Rightarrow> False
                    | Some hdr \<Rightarrow> unat b + unat header_size + unat (blk_size hdr) < 2 ^ 64) keys"

text \<open>What a hit of the walk does to the chosen block: split it, flag it not free, and return
  the address after its header.\<close>

definition hand_out :: "allocator \<Rightarrow> addr \<Rightarrow> size_t \<Rightarrow> (addr \<times> allocator) option" where
  "hand_out s block n =
     (case block_split s block n of
        None \<Rightarrow> None
      | Some s1 \<Rightarrow>
          (case write_is_free s1 block False of
             None \<Rightarrow> None
           | Some s2 \<Rightarrow> Some (block + header_size, s2)))"

text \<open>A block lies in range when it ends below the top of the address space.\<close>

definition in_range :: "addr \<times> BlockHeader \<Rightarrow> bool" where
  "in_range = (\<lambda>(block, hdr). unat block + unat header_size + unat (blk_size hdr) < 2 ^ 64)"

text \<open>
  A walk is chained from \<open>base\<close> when its first block starts at \<open>base\<close> and every block
  starts at the successor address of the one before.
\<close>

fun chained :: "addr \<Rightarrow> (addr \<times> BlockHeader) list \<Rightarrow> bool" where
  "chained base [] = True"
| "chained base ((block, hdr) # rest) =
     (block = base \<and> chained (base + header_size + blk_size hdr) rest)"

text \<open>The size \<open>arena_create\<close> gives the arena it creates for a request of \<open>n\<close> bytes.\<close>

definition new_arena_size :: "allocator \<Rightarrow> size_t \<Rightarrow> size_t" where
  "new_arena_size s n = align (max (align n + header_size) (default_arena_size s))"

definition in_arena :: "Arena \<Rightarrow> addr \<Rightarrow> bool" where
  "in_arena arena a =
     (unat (arena_base arena) \<le> unat a \<and>
      unat a < unat (arena_base arena) + unat (arena_size arena))"

text \<open>
  The sum of header and block sizes over the blocks walked from an arena's base, and
  the invariant that it equals the arena's size in every arena.
\<close>

definition arena_total :: "allocator \<Rightarrow> Arena \<Rightarrow> nat option" where
  "arena_total s arena =
     map_option (\<lambda>shown. sum_list (map (\<lambda>(block, hdr). unat header_size + unat (blk_size hdr)) shown))
       (mem_show_arena s arena)"

definition sizes_add_up :: "allocator \<Rightarrow> bool" where
  "sizes_add_up s = list_all (\<lambda>arena. arena_total s arena = Some (unat (arena_size arena))) (arena_list s)"

text \<open>
  Two blocks are adjacent and free when the second starts at the successor address of
  the first and both are flagged free. An arena has no such pair when the walk from
  its base ends and no block of the walk forms one with the block walked next; the
  blocks of an arena are those the walks of \<open>block_alloc\<close> and \<open>mem_show\<close> visit, whether
  or not the block map still holds them.
\<close>

definition adjacent_free :: "(addr \<times> BlockHeader) \<times> (addr \<times> BlockHeader) \<Rightarrow> bool" where
  "adjacent_free =
     (\<lambda>((block, hdr), (next_block, next_hdr)).
        next_block = block + header_size + blk_size hdr \<and> is_free hdr \<and> is_free next_hdr)"

definition arena_coalesced :: "allocator \<Rightarrow> Arena \<Rightarrow> bool" where
  "arena_coalesced s arena =
     (case mem_show_arena s arena of
        None \<Rightarrow> False
      | Some shown \<Rightarrow> \<not> list_ex adjacent_free (zip shown (tl shown)))"

definition no_adjacent_free :: "allocator \<Rightarrow> bool" where
  "no_adjacent_free s = list_all (arena_coalesced s) (arena_list s)"

text \<open>
  An arena of 4096 bytes cut into three blocks, the first two free and adjacent.
\<close>

definition fragmented :: allocator where
  "fragmented =
     \<lparr>default_arena_size = 4096,
      arena_list = [\<lparr>arena_size = 4096, arena_base = 0x10000\<rparr>],
      block_map = [0x10020, 0x10000, 0x10050],
      memory = (\<lambda>a. None)
        (0x10000 \<mapsto> \<lparr>blk_size = 16, is_free = True, is_first = True, is_last = False\<rparr>,
         0x10020 \<mapsto> \<lparr>blk_size = 32, is_free = True, is_first = False, is_last = False\<rparr>,
         0x10050 \<mapsto> \<lparr>blk_size = 4000, is_free = False, is_first = False, is_last = True\<rparr>)\<rparr>"

text \<open>The state right after the first arena of 4096 bytes was created at \<open>0x10000\<close>.\<close>

definition one_arena :: allocator where
  "one_arena =
     \<lparr>default_arena_size = 4096,
      arena_list = [\<lparr>arena_size = 4096, arena_base = 0x10000\<rparr>],
      block_map = [0x10000],
      memory = (\<lambda>a. None)
        (0x10000 \<mapsto> \<lparr>blk_size = 4080, is_free = True, is_first = True, is_last = True\<rparr>)\<rparr>"

text \<open>The state after \<open>mem_alloc(2000)\<close> on a fresh allocator with arenas of 4096 bytes.\<close>

definition after_2000 :: allocator where
  "after_2000 =
     \<lparr>default_arena_size = 4096,
      arena_list = [\<lparr>arena_size = 4096, arena_base = 0x10000\<rparr>],
      block_map = [0x107E0, 0x10000],
      memory = (\<lambda>a. None)
        (0x107E0 \<mapsto> \<lparr>blk_size = 2064, is_free = True, is_first = False, is_last = True\<rparr>,
         0x10000 \<mapsto> \<lparr>blk_size = 2000, is_free = False, is_first = True, is_last = False\<rparr>)\<rparr>"

text \<open>
  The state after three allocations of 200 bytes and \<open>mem_free\<close> of the second.
\<close>

definition middle_freed :: allocator where
  "middle_freed =
     \<lparr>default_arena_size = 4096,
      arena_list = [\<lparr>arena_size = 4096, arena_base = 0x10000\<rparr>],
      block_map = [0x10288, 0x101B0, 0x100D8, 0x10000],
      memory = (\<lambda>a. None)
        (0x10000 \<mapsto> \<lparr>blk_size = 200, is_free = False, is_first = True, is_last = False\<rparr>,
         0x10288 \<mapsto> \<lparr>blk_size = 3432, is_free = True, is_first = False, is_last = True\<rparr>,
         0x101B0 \<mapsto> \<lparr>blk_size = 200, is_free = False, is_first = False, is_last = False\<rparr>,
         0x100D8 \<mapsto> \<lparr>blk_size = 200, is_free = True, is_first = False, is_last = False\<rparr>)\<rparr>"

text \<open>
  Two arenas of 65536 bytes, the second granted right at the end of the first, each
  with a block of 60000 bytes handed out; and the state after \<open>mem_free\<close> of the
  second arena's block.
\<close>

definition adjacent_arenas :: allocator where
  "adjacent_arenas =
     \<lparr>default_arena_size = 0x10000,
      arena_list = [\<lparr>arena_size = 0x10000, arena_base = 0x20000\<rparr>,
                    \<lparr>arena_size = 0x10000, arena_base = 0x10000\<rparr>],
      block_map = [0x2EA70, 0x20000, 0x1EA70, 0x10000],
      memory = (\<lambda>a. None)
        (0x1EA70 \<mapsto> \<lparr>blk_size = 5504, is_free = True, is_first = False, is_last = True\<rparr>,
         0x10000 \<mapsto> \<lparr>blk_size = 60000, is_free = False, is_first = True, is_last = False\<rparr>,
         0x2EA70 \<mapsto> \<lparr>blk_size = 5504, is_free = True, is_first = False, is_last = True\<rparr>,
         0x20000 \<mapsto> \<lparr>blk_size = 60000, is_free = False, is_first = True, is_last = False\<rparr>)\<rparr>"

definition merged_across :: allocator where
  "merged_across =
     \<lparr>default_arena_size = 0x10000,
      arena_list = [\<lparr>arena_size = 0x10000, arena_base = 0x20000\<rparr>,
                    \<lparr>arena_size = 0x10000, arena_base = 0x10000\<rparr>],
      block_map = [0x1EA70, 0x10000],
      memory = (\<lambda>a. None)
        (0x10000 \<mapsto> \<lparr>blk_size = 60000, is_free = False, is_first = True, is_last = False\<rparr>,
         0x2EA70 \<mapsto> \<lparr>blk_size = 5504, is_free = True, is_first = False, is_last = True\<rparr>,
         0x20000 \<mapsto> \<lparr>blk_size = 65520, is_free = True, is_first = True, is_last = True\<rparr>,
         0x1EA70 \<mapsto> \<lparr>blk_size = 71040, is_free = True, is_first = False, is_last = True\<rparr>)\<rparr>"

text \<open>
  Two arenas of 65536 bytes granted back to back, blocks of 50000 and 10000 bytes
  handed out in the first and one of 60000 bytes in the second: the state after
  \<open>mem_free\<close> of the second arena's block.
\<close>

definition stale_pair :: allocator where
  "stale_pair =
     \<lparr>default_arena_size = 0x10000,
      arena_list = [\<lparr>arena_size = 0x10000, arena_base = 0x20000\<rparr>,
                    \<lparr>arena_size = 0x10000, arena_base = 0x10000\<rparr>],
      block_map = [0x1EA80, 0x1C360, 0x10000],
      memory = (\<lambda>a. None)
        (0x10000 \<mapsto> \<lparr>blk_size = 50000, is_free = False, is_first = True, is_last = False\<rparr>,
         0x2EA70 \<mapsto> \<lparr>blk_size = 5504, is_free = True, is_first = False, is_last = True\<rparr>,
         0x1C360 \<mapsto> \<lparr>blk_size = 10000, is_free = False, is_first = False, is_last = False\<rparr>,
         0x20000 \<mapsto> \<lparr>blk_size = 60000, is_free = True, is_first = True, is_last = False\<rparr>,
         0x1EA80 \<mapsto> \<lparr>blk_size = 71024, is_free = True, is_first = False, is_last = True\<rparr>)\<rparr>"

section \<open>Arithmetic of sizes\<close>

lemma unat_header_size: "unat header_size = 16"
  by (simp add: header_size_def)

lemma align_0: "align 0 = 0"
  by (simp add: align_def)

lemma unat_plus_20:
  assumes "unat (n :: size_t) + 20 < 2 ^ 64"
  shows "unat (n + header_size + 4) = unat n + 20" and "n + header_size \<noteq> 0"
proof -
  have a: "unat (n + header_size) = unat n + 16"
    using assms by (simp add: unat_word_ariths unat_header_size)
  then show "unat (n + header_size + 4) = unat n + 20"
    using assms by (simp add: unat_word_ariths)
  show "n + header_size \<noteq> 0"
    using a by (metis add_is_0 unat_0 zero_neq_numeral)
qed

lemma unat_lt_2p64: "unat (n :: 64 word) < 18446744073709551616"
  using unsigned_less [of n] by simp

lemma and_minus_4: "(x :: 64 word) AND - 4 = x - x mod 4"
proof -
  have m: "x mod 4 = x AND 3"
    using word_mod_2p_is_mask [of 2 x] by (simp add: mask_eq_exp_minus_1)
  have "x - (x AND 3) = x AND NOT (x AND 3)"
    by (rule disjunctive_diff) (simp add: bit_and_iff)
  also have "\<dots> = x AND NOT 3"
    by (rule bit_eqI) (simp only: bit_and_iff bit_not_iff, blast)
  finally show ?thesis
    by (simp add: m)
qed

lemma unat_and_minus_4: "unat ((x :: 64 word) AND - 4) = unat x - unat x mod 4"
proof -
  have "x mod 4 \<le> x"
    by (simp add: word_le_nat_alt unat_mod)
  then have "unat (x - x mod 4) = unat x - unat (x mod 4)"
    by (rule unat_sub)
  then show ?thesis
    by (simp add: and_minus_4 unat_mod)
qed

lemma unat_align:
  assumes "unat n + 3 < 2 ^ 64"
  shows "unat (align n) = unat n + 3 - (unat n + 3) mod 4"
proof -
  have "unat (n + 3) = unat n + 3"
    using assms by (simp add: unat_word_ariths)
  then show ?thesis
    by (simp add: align_def unat_and_minus_4)
qed

lemma align_oversized:
  assumes "2 ^ 64 \<le> unat n + 3"
  shows "align n = 0"
proof -
  have "unat (n + 3) = unat n + 3 - 18446744073709551616"
    using assms unat_plus_if_size [of n 3] by (simp add: word_size)
  with unat_lt_2p64 [of n] have "unat (n + 3) < 3"
    by simp
  then have "unat (n + 3) - unat (n + 3) mod 4 = 0"
    by simp
  then have "unat (align n) = 0"
    by (simp add: align_def unat_and_minus_4)
  then show ?thesis
    by (simp add: unat_eq_0)
qed

lemma align_ge:
  assumes "unat n + 3 < 2 ^ 64"
  shows "n \<le> align n"
  using unat_align [OF assms] by (simp add: word_le_nat_alt)

lemma align_mod4: "unat (align n) mod 4 = 0"
  by (simp add: align_def unat_and_minus_4)

lemma aligned_plus_3:
  assumes "unat (m :: 64 word) mod 4 = 0"
  shows "unat m + 3 < 2 ^ 64"
proof -
  from assms have "4 dvd unat m"
    by (rule mod_0_imp_dvd)
  then obtain k where k: "unat m = 4 * k" ..
  with unat_lt_2p64 [of m] have "k < 4611686018427387904"
    by simp
  with k show ?thesis
    by simp
qed

lemma align_aligned:
  assumes "unat n mod 4 = 0"
  shows "align n = n"
proof -
  from assms have "unat n + 3 < 2 ^ 64"
    by (rule aligned_plus_3)
  from unat_align [OF this] assms have "unat (align n) = unat n"
    by presburger
  then show ?thesis
    by (rule word_unat_eq_iff [THEN iffD2])
qed

lemma align_idem: "align (align n) = align n"
  by (rule align_aligned) (rule align_mod4)

lemma align_le_mono:
  assumes "n \<le> m" "unat m mod 4 = 0"
  shows "align n \<le> m"
proof -
  from aligned_plus_3 [OF assms(2)] assms(1) have "unat n + 3 < 2 ^ 64"
    by (simp add: word_le_nat_alt)
  then have a: "unat (align n) = 4 * ((unat n + 3) div 4)"
    by (simp add: unat_align minus_mod_eq_mult_div)
  from assms(2) have "4 dvd unat m"
    by (rule mod_0_imp_dvd)
  then obtain k where k: "unat m = 4 * k" ..
  with assms(1) have "(unat n + 3) div 4 \<le> (4 * k + 3) div 4"
    by (intro div_le_mono) (simp add: word_le_nat_alt)
  then have "(unat n + 3) div 4 \<le> k"
    by simp
  with a k show ?thesis
    by (simp add: word_le_nat_alt)
qed

section \<open>The coalescing pass\<close>

lemma unite_loop_advance:
  assumes "mem block = Some hdr"
    and "\<not> is_free hdr \<or> block + header_size + blk_size hdr \<notin> set (visited @ block # rest)
         \<or> (\<exists>nh. mem (block + header_size + blk_size hdr) = Some nh \<and> \<not> is_free nh)"
  shows "block_unite_loop mem visited (block # rest) = block_unite_loop mem (visited @ [block]) rest"
  using assms by (auto simp: Let_def)

lemma unite_loop_merge:
  assumes "mem block = Some hdr" "is_free hdr"
    and "block + header_size + blk_size hdr \<in> set (visited @ block # rest)"
    and "mem (block + header_size + blk_size hdr) = Some nh" "is_free nh"
    and "block + header_size + blk_size hdr \<noteq> block"
  shows "block_unite_loop mem visited (block # rest) =
         block_unite_loop (mem(block \<mapsto> merged hdr nh))
           (removeAll (block + header_size + blk_size hdr) visited)
           (block # removeAll (block + header_size + blk_size hdr) rest)"
  using assms by (auto simp: Let_def merged_def)

lemma unite_loop_induct [consumes 1, case_names Nil advance merge]:
  assumes ret: "block_unite_loop mem visited todo = Some r"
    and nil: "\<And>mem visited. r = (mem, visited) \<Longrightarrow> P mem visited []"
    and adv: "\<And>mem visited block rest hdr.
        mem block = Some hdr \<Longrightarrow>
        \<not> is_free hdr \<or> block + header_size + blk_size hdr \<notin> set (visited @ block # rest)
          \<or> (\<exists>nh. mem (block + header_size + blk_size hdr) = Some nh \<and> \<not> is_free nh) \<Longrightarrow>
        block_unite_loop mem (visited @ [block]) rest = Some r \<Longrightarrow>
        P mem (visited @ [block]) rest \<Longrightarrow> P mem visited (block # rest)"
    and mrg: "\<And>mem visited block rest hdr nh.
        mem block = Some hdr \<Longrightarrow> is_free hdr \<Longrightarrow>
        block + header_size + blk_size hdr \<in> set (visited @ block # rest) \<Longrightarrow>
        mem (block + header_size + blk_size hdr) = Some nh \<Longrightarrow> is_free nh \<Longrightarrow>
        block + header_size + blk_size hdr \<noteq> block \<Longrightarrow>
        block_unite_loop (mem(block \<mapsto> merged hdr nh))
           (removeAll (block + header_size + blk_size hdr) visited)
           (block # removeAll (block + header_size + blk_size hdr) rest) = Some r \<Longrightarrow>
        P (mem(block \<mapsto> merged hdr nh))
           (removeAll (block + header_size + blk_size hdr) visited)
           (block # removeAll (block + header_size + blk_size hdr) rest) \<Longrightarrow>
        P mem visited (block # rest)"
  shows "P mem visited todo"
  using ret
proof (induction mem visited todo rule: block_unite_loop.induct)
  case (1 mem visited)
  then show ?case by (intro nil) simp
next
  case (2 mem visited block rest)
  from "2.prems" obtain hdr where h: "mem block = Some hdr"
    by (auto split: option.splits)
  let ?nb = "block + header_size + blk_size hdr"
  show ?case
  proof (cases "is_free hdr")
    case False
    then have eq: "block_unite_loop mem visited (block # rest) = block_unite_loop mem (visited @ [block]) rest"
      using h by (intro unite_loop_advance) auto
    with "2.prems" have call: "block_unite_loop mem (visited @ [block]) rest = Some r" by simp
    from adv [OF h _ call "2.IH"(4) [OF h False call]] False show ?thesis by blast
  next
    case fr: True
    show ?thesis
    proof (cases "?nb \<in> set (visited @ block # rest)")
      case False
      then have eq: "block_unite_loop mem visited (block # rest) = block_unite_loop mem (visited @ [block]) rest"
        using h by (intro unite_loop_advance) auto
      with "2.prems" have call: "block_unite_loop mem (visited @ [block]) rest = Some r" by simp
      from adv [OF h _ call "2.IH"(3) [OF h fr refl False call]] False show ?thesis by blast
    next
      case tr: True
      from "2.prems" h fr tr obtain nh where nh: "mem ?nb = Some nh"
        by (cases "mem ?nb") (simp_all add: Let_def del: set_append)
      show ?thesis
      proof (cases "is_free nh")
        case False
        have eq: "block_unite_loop mem visited (block # rest) = block_unite_loop mem (visited @ [block]) rest"
          using h nh False by (intro unite_loop_advance) auto
        with "2.prems" have call: "block_unite_loop mem (visited @ [block]) rest = Some r" by simp
        from adv [OF h _ call "2.IH"(2) [OF h fr refl tr nh False call]] nh False show ?thesis by blast
      next
        case nfr: True
        from "2.prems" h fr tr nh nfr have ne: "?nb \<noteq> block"
          by (auto simp: Let_def simp del: set_append)
        from "2.prems" have call: "block_unite_loop (mem(block \<mapsto> merged hdr nh))
           (removeAll ?nb visited) (block # removeAll ?nb rest) = Some r"
          by (simp only: unite_loop_merge [OF h fr tr nh nfr ne])
        have ih: "P (mem(block \<mapsto> merged hdr nh)) (removeAll ?nb visited) (block # removeAll ?nb rest)"
          using "2.IH"(1) [OF h fr refl tr nh nfr ne call [unfolded merged_def]]
          unfolding merged_def .
        from mrg [OF h fr tr nh nfr ne call ih]
        show ?thesis .
      qed
    qed
  qed
qed


declare block_unite_loop.simps(2) [simp del]

lemma unite_loop_settled:
  assumes "block_unite_loop mem visited todo = Some (mem', keys')"
    and "\<forall>b\<in>set visited. b \<in> set todo \<or> settled mem (visited @ todo) b"
  shows "\<forall>b\<in>set keys'. settled mem' keys' b"
  using assms
proof (induction rule: unite_loop_induct)
  case (Nil mem visited)
  then show ?case by simp
next
  case (advance mem visited block rest hdr)
  have now: "settled mem (visited @ block # rest) block"
    using advance(1,2) by (auto simp: settled_def tracked_free_def)
  have "\<forall>b\<in>set (visited @ [block]). b \<in> set rest \<or> settled mem ((visited @ [block]) @ rest) b"
    using advance.prems now by auto
  with advance show ?case by blast
next
  case (merge mem visited block rest hdr nh)
  let ?nb = "block + header_size + blk_size hdr"
  let ?mem1 = "mem(block \<mapsto> merged hdr nh)"
  have "\<forall>c\<in>set (removeAll ?nb visited). c \<in> set (block # removeAll ?nb rest) \<or>
      settled ?mem1 (removeAll ?nb visited @ block # removeAll ?nb rest) c"
  proof
    fix c assume "c \<in> set (removeAll ?nb visited)"
    then have cv: "c \<in> set visited" and cn: "c \<noteq> ?nb" by auto
    show "c \<in> set (block # removeAll ?nb rest) \<or>
      settled ?mem1 (removeAll ?nb visited @ block # removeAll ?nb rest) c"
    proof (cases "c \<in> set (block # rest)")
      case True
      with cn show ?thesis by auto
    next
      case False
      then have cb: "c \<noteq> block" by auto
      from False cv merge.prems have old: "settled mem (visited @ block # rest) c" by auto
      have "settled ?mem1 (removeAll ?nb visited @ block # removeAll ?nb rest) c"
        using old cb merge(1,2)
        by (auto simp: settled_def tracked_free_def merged_def split: option.splits if_splits)
      then show ?thesis ..
    qed
  qed
  with merge show ?case by blast
qed

lemma unite_loop_fixpoint:
  "\<forall>b\<in>set (visited @ todo). settled mem (visited @ todo) b \<Longrightarrow>
   block_unite_loop mem visited todo = Some (mem, visited @ todo)"
proof (induction todo arbitrary: visited)
  case Nil
  then show ?case by simp
next
  case (Cons block rest)
  from Cons.prems have "settled mem (visited @ block # rest) block" by simp
  then obtain hdr where h: "mem block = Some hdr"
    and ns: "\<not> (is_free hdr \<and> tracked_free mem (visited @ block # rest) (block + header_size + blk_size hdr))"
    by (auto simp: settled_def split: option.splits)
  let ?nb = "block + header_size + blk_size hdr"
  have "\<not> is_free hdr \<or> ?nb \<notin> set (visited @ block # rest)
         \<or> (\<exists>nh. mem ?nb = Some nh \<and> \<not> is_free nh)"
  proof (cases "is_free hdr \<and> ?nb \<in> set (visited @ block # rest)")
    case False
    then show ?thesis by blast
  next
    case True
    with Cons.prems have "settled mem (visited @ block # rest) ?nb" by blast
    then obtain nh where "mem ?nb = Some nh" by (auto simp: settled_def split: option.splits)
    with ns True show ?thesis by (auto simp: tracked_free_def)
  qed
  with h have "block_unite_loop mem visited (block # rest) = block_unite_loop mem (visited @ [block]) rest"
    by (rule unite_loop_advance)
  moreover have "block_unite_loop mem (visited @ [block]) rest = Some (mem, (visited @ [block]) @ rest)"
    using Cons.prems by (intro Cons.IH) simp
  ultimately show ?case by simp
qed

lemma unite_loop_is_free:
  assumes "block_unite_loop mem visited todo = Some (mem', keys')"
  shows "map_option is_free (mem' a) = map_option is_free (mem a)"
  using assms
proof (induction rule: unite_loop_induct)
  case (merge mem visited block rest hdr nh)
  then show ?case by (auto simp: merged_def)
qed simp_all

lemma unite_loop_keys:
  assumes "block_unite_loop mem visited todo = Some (mem', keys')"
  shows "set keys' \<subseteq> set (visited @ todo)"
  using assms
proof (induction rule: unite_loop_induct)
  case (merge mem visited block rest hdr nh)
  then show ?case by auto
qed auto

lemma unite_loop_total:
  "blocks_in_range mem (visited @ todo) \<Longrightarrow> block_unite_loop mem visited todo \<noteq> None"
proof (induction mem visited todo rule: block_unite_loop.induct)
  case (1 mem visited)
  then show ?case by simp
next
  case (2 mem visited block rest)
  from "2.prems" obtain hdr where h: "mem block = Some hdr"
    and hr: "unat block + unat header_size + unat (blk_size hdr) < 2 ^ 64"
    by (auto simp: blocks_in_range_def split: option.splits)
  let ?nb = "block + header_size + blk_size hdr"
  have adv: "blocks_in_range mem ((visited @ [block]) @ rest)"
    using "2.prems" by simp
  have unb: "unat ?nb = unat block + unat header_size + unat (blk_size hdr)"
    using hr by (simp add: unat_word_ariths)
  show ?case
  proof (cases "is_free hdr")
    case False
    then have "block_unite_loop mem visited (block # rest) = block_unite_loop mem (visited @ [block]) rest"
      using h by (intro unite_loop_advance) auto
    with "2.IH"(4) [OF h False adv] show ?thesis by simp
  next
    case fr: True
    show ?thesis
    proof (cases "?nb \<in> set (visited @ block # rest)")
      case False
      then have "block_unite_loop mem visited (block # rest) = block_unite_loop mem (visited @ [block]) rest"
        using h by (intro unite_loop_advance) auto
      with "2.IH"(3) [OF h fr refl False adv] show ?thesis by simp
    next
      case tr: True
      have allr: "\<forall>b\<in>set (visited @ block # rest). \<exists>hb. mem b = Some hb \<and>
          unat b + unat header_size + unat (blk_size hb) < 2 ^ 64"
        using "2.prems" unfolding blocks_in_range_def list_all_iff
        by (auto split: option.splits)
      with tr obtain nh where nh: "mem ?nb = Some nh"
        and nr: "unat ?nb + unat header_size + unat (blk_size nh) < 2 ^ 64"
        by blast
      show ?thesis
      proof (cases "is_free nh")
        case False
        have "block_unite_loop mem visited (block # rest) = block_unite_loop mem (visited @ [block]) rest"
          using h nh False by (intro unite_loop_advance) auto
        with "2.IH"(2) [OF h fr refl tr nh False adv] show ?thesis by simp
      next
        case nfr: True
        have ne: "?nb \<noteq> block"
        proof
          assume "?nb = block"
          then have "unat ?nb = unat block" by (rule arg_cong)
          with unb show False by (simp add: unat_header_size)
        qed
        have sz: "unat (blk_size hdr + (header_size + blk_size nh))
            = unat (blk_size hdr) + unat header_size + unat (blk_size nh)"
          using nr unb by (simp add: unat_word_ariths unat_header_size)
        have rng: "blocks_in_range (mem(block \<mapsto> merged hdr nh))
            (removeAll ?nb visited @ block # removeAll ?nb rest)"
          unfolding blocks_in_range_def list_all_iff
        proof
          fix b assume "b \<in> set (removeAll ?nb visited @ block # removeAll ?nb rest)"
          then have "b \<in> set (visited @ block # rest)" by auto
          with allr obtain hb where hb: "mem b = Some hb"
            "unat b + unat header_size + unat (blk_size hb) < 2 ^ 64"
            by blast
          show "case (mem(block \<mapsto> merged hdr nh)) b of None \<Rightarrow> False
            | Some hdr \<Rightarrow> unat b + unat header_size + unat (blk_size hdr) < 2 ^ 64"
          proof (cases "b = block")
            case True
            then show ?thesis using nr unb sz by (simp add: merged_def)
          next
            case False
            then show ?thesis using hb by simp
          qed
        qed
        have "block_unite_loop (mem(block \<mapsto> merged hdr nh))
            (removeAll ?nb visited) (block # removeAll ?nb rest) \<noteq> None"
          using "2.IH"(1) [OF h fr refl tr nh nfr ne rng [unfolded merged_def]]
          unfolding merged_def .
        then show ?thesis
          unfolding unite_loop_merge [OF h fr tr nh nfr ne] .
      qed
    qed
  qed
qed

lemma block_unite_fixed:
  assumes "block_unite s = Some s'"
  shows "block_unite s' = Some s'"
    and "list_all (settled (memory s') (block_map s')) (block_map s')"
    and "map_option is_free (memory s' a) = map_option is_free (memory s a)"
    and "set (block_map s') \<subseteq> set (block_map s)"
    and "default_arena_size s' = default_arena_size s" and "arena_list s' = arena_list s"
proof -
  from assms obtain mem' keys' where
    loop: "block_unite_loop (memory s) [] (block_map s) = Some (mem', keys')"
    and s': "s' = s\<lparr>memory := mem', block_map := keys'\<rparr>"
    by (auto simp: block_unite_def split: option.splits)
  from loop have all: "\<forall>b\<in>set keys'. settled mem' keys' b"
    by (rule unite_loop_settled) simp
  then have "block_unite_loop mem' [] keys' = Some (mem', [] @ keys')"
    by (intro unite_loop_fixpoint) simp
  then show "block_unite s' = Some s'"
    by (simp add: block_unite_def s')
  from all show "list_all (settled (memory s') (block_map s')) (block_map s')"
    by (simp add: list_all_iff s')
  from unite_loop_is_free [OF loop] show "map_option is_free (memory s' a) = map_option is_free (memory s a)"
    by (simp add: s')
  from unite_loop_keys [OF loop] show "set (block_map s') \<subseteq> set (block_map s)"
    by (simp add: s')
  show "default_arena_size s' = default_arena_size s" and "arena_list s' = arena_list s"
    by (simp_all add: s')
qed

lemma write_is_free_same:
  assumes "memory s block = Some hdr" "is_free hdr = v"
  shows "write_is_free s block v = Some s"
proof -
  have "hdr\<lparr>is_free := v\<rparr> = hdr"
    using assms(2) by simp
  then have "(memory s)(block \<mapsto> hdr\<lparr>is_free := v\<rparr>) = memory s"
    using assms(1) by (simp add: fun_upd_idem)
  then show ?thesis
    using assms(1) by (simp add: write_is_free_def)
qed

section \<open>The walk of an arena\<close>

lemma arena_create_one_arena:
  "arena_create (\<lambda>_. 0x10000) (configure 4096) 4096 =
     (Some \<lparr>arena_size = 4096, arena_base = 0x10000\<rparr>, one_arena)"
  by (simp add: arena_create_def configure_def one_arena_def align_def header_size_def Let_def)

lemma block_alloc_loop_hit:
  assumes "base < arena_base arena + arena_size arena" "memory s base = Some hdr"
    and "is_free hdr" "n \<le> blk_size hdr"
  shows "block_alloc_loop s arena n base =
     (case block_split s base n of
        None \<Rightarrow> None
      | Some s1 \<Rightarrow>
          (case write_is_free s1 base False of
             None \<Rightarrow> None
           | Some s2 \<Rightarrow> Some (base + header_size, s2)))"
  using assms by (subst block_alloc_loop.simps) simp

lemma block_alloc_loop_skip:
  assumes "base < arena_base arena + arena_size arena" "memory s base = Some hdr"
    and "\<not> (is_free hdr \<and> n \<le> blk_size hdr)"
  shows "block_alloc_loop s arena n base =
     block_alloc_loop s arena n (base + header_size + blk_size hdr)"
  using assms by (subst block_alloc_loop.simps) auto

lemma block_alloc_loop_end:
  assumes "\<not> base < arena_base arena + arena_size arena"
  shows "block_alloc_loop s arena n base = Some (0, s)"
  using assms by (subst block_alloc_loop.simps) simp

lemma mem_show_loop_end:
  "\<not> base < limit \<Longrightarrow> mem_show_loop mem limit base = Some []"
  by (subst mem_show_loop.simps) simp

lemma mem_show_loop_step:
  "base < limit \<Longrightarrow> mem base = Some hdr \<Longrightarrow>
   mem_show_loop mem limit base =
     map_option (\<lambda>shown. (base, hdr) # shown)
       (mem_show_loop mem limit (base + header_size + blk_size hdr))"
  by (subst mem_show_loop.simps) (cases "mem_show_loop mem limit (base + header_size + blk_size hdr)"; simp)

lemma mem_show_loop_NilE:
  assumes "mem_show_loop mem limit base = Some []"
  shows "\<not> base < limit"
proof
  assume lt: "base < limit"
  show False
  proof (cases "mem base")
    case None
    with lt assms show False by (subst (asm) mem_show_loop.simps) simp
  next
    case (Some hdr)
    with lt assms show False by (simp add: mem_show_loop_step)
  qed
qed

lemma mem_show_loop_ConsE:
  assumes "mem_show_loop mem limit base = Some ((block, hdr) # rest)"
  shows "base < limit" and "block = base" and "mem base = Some hdr"
    and "mem_show_loop mem limit (base + header_size + blk_size hdr) = Some rest"
proof -
  show lt: "base < limit"
    using assms by (rule_tac ccontr) (simp add: mem_show_loop_end)
  obtain h where h: "mem base = Some h"
    using assms lt by (cases "mem base") (subst (asm) mem_show_loop.simps, simp)+
  from assms lt h show "block = base" and "mem base = Some hdr"
    by (auto simp: mem_show_loop_step)
  from assms lt h show "mem_show_loop mem limit (base + header_size + blk_size hdr) = Some rest"
    by (auto simp: mem_show_loop_step)
qed

lemma hand_out_Some:
  assumes "memory s block = Some hdr"
  shows "\<exists>s'. hand_out s block n = Some (block + header_size, s')"
  using assms by (auto simp: hand_out_def block_split_def write_is_free_def Let_def)

lemma block_alloc_loop_first_fit:
  assumes "mem_show_loop (memory s) (arena_base arena + arena_size arena) base = Some shown"
  shows "block_alloc_loop s arena n base =
     (case find (fits n) shown of
        None \<Rightarrow> Some (0, s)
      | Some (block, hdr) \<Rightarrow> hand_out s block n)"
  using assms
proof (induction shown arbitrary: base)
  case Nil
  then have "\<not> base < arena_base arena + arena_size arena"
    by (rule mem_show_loop_NilE)
  then show ?case
    by (simp add: block_alloc_loop_end)
next
  case (Cons x shown)
  obtain block hdr where x: "x = (block, hdr)" by (cases x)
  note walk = mem_show_loop_ConsE [OF Cons.prems [unfolded x]]
  show ?case
  proof (cases "fits n (block, hdr)")
    case True
    with walk show ?thesis
      by (simp add: x fits_def hand_out_def block_alloc_loop_hit)
  next
    case False
    with walk have "block_alloc_loop s arena n base =
        block_alloc_loop s arena n (base + header_size + blk_size hdr)"
      by (intro block_alloc_loop_skip) (auto simp: fits_def)
    with False Cons.IH [OF walk(4)] show ?thesis
      by (simp add: x)
  qed
qed

lemma mem_show_loop_memory:
  assumes "mem_show_loop mem limit base = Some shown"
  shows "\<forall>(block, hdr)\<in>set shown. mem block = Some hdr \<and> block < limit"
  using assms
proof (induction shown arbitrary: base)
  case Nil
  then show ?case by simp
next
  case (Cons x shown)
  obtain block hdr where x: "x = (block, hdr)" by (cases x)
  note walk = mem_show_loop_ConsE [OF Cons.prems [unfolded x]]
  from Cons.IH [OF walk(4)] walk(1-3) show ?case
    by (simp add: x)
qed

lemma mem_show_arenas_memory:
  assumes "mem_show_arenas s arenas = Some shown"
  shows "\<forall>(block, hdr)\<in>set shown. memory s block = Some hdr"
  using assms
proof (induction arenas arbitrary: shown)
  case Nil
  then show ?case by simp
next
  case (Cons arena arenas)
  then obtain here more where here: "mem_show_arena s arena = Some here"
    and more: "mem_show_arenas s arenas = Some more" and shown: "shown = here @ more"
    by (auto split: option.splits)
  from mem_show_loop_memory [OF here [unfolded mem_show_arena_def]] Cons.IH [OF more]
  show ?case
    by (auto simp: shown)
qed

lemma find_append_cases:
  "find P (xs @ ys) = (case find P xs of None \<Rightarrow> find P ys | Some x \<Rightarrow> Some x)"
  by (induction xs) simp_all

lemma mem_alloc_scan_first_fit:
  assumes "mem_show_arenas s arenas = Some shown"
  shows "(find (fits (align n)) shown = None \<longrightarrow> mem_alloc_scan s arenas n = Some (0, s)) \<and>
     (\<forall>block hdr. find (fits (align n)) shown = Some (block, hdr) \<and> block + header_size \<noteq> 0 \<longrightarrow>
        mem_alloc_scan s arenas n = hand_out s block (align n))"
  using assms
proof (induction arenas arbitrary: shown)
  case Nil
  then show ?case by simp
next
  case (Cons arena arenas)
  then obtain here more where here: "mem_show_arena s arena = Some here"
    and more: "mem_show_arenas s arenas = Some more" and shown: "shown = here @ more"
    by (auto split: option.splits)
  have alloc: "block_alloc s arena n =
     (case find (fits (align n)) here of
        None \<Rightarrow> Some (0, s)
      | Some (block, hdr) \<Rightarrow> hand_out s block (align n))"
    unfolding block_alloc_def
    by (rule block_alloc_loop_first_fit [OF here [unfolded mem_show_arena_def]])
  show ?case
  proof (cases "find (fits (align n)) here")
    case None
    with alloc have "mem_alloc_scan s (arena # arenas) n = mem_alloc_scan s arenas n"
      by simp
    moreover from None have "find (fits (align n)) shown = find (fits (align n)) more"
      by (simp add: shown find_append_cases)
    ultimately show ?thesis
      using Cons.IH [OF more] by simp
  next
    case (Some x)
    obtain block hdr where x: "x = (block, hdr)" by (cases x)
    from Some have "x \<in> set here"
      by (auto simp: find_Some_iff in_set_conv_nth)
    with mem_show_loop_memory [OF here [unfolded mem_show_arena_def]]
    have "memory s block = Some hdr"
      by (auto simp: x)
    then obtain s' where "hand_out s block (align n) = Some (block + header_size, s')"
      using hand_out_Some by blast
    with alloc Some show ?thesis
      by (simp add: shown find_append_cases x)
  qed
qed

lemma mem_show_loop_chained:
  assumes "mem_show_loop mem limit base = Some shown"
  shows "chained base shown"
  using assms
proof (induction shown arbitrary: base)
  case Nil
  then show ?case by simp
next
  case (Cons x shown)
  obtain block hdr where x: "x = (block, hdr)" by (cases x)
  note walk = mem_show_loop_ConsE [OF Cons.prems [unfolded x]]
  from Cons.IH [OF walk(4)] walk(2) show ?case
    by (simp add: x)
qed

lemma chained_lower_bound:
  assumes "chained base shown" "list_all in_range shown"
  shows "\<forall>(block, hdr)\<in>set shown. base \<le> block"
  using assms
proof (induction shown arbitrary: base)
  case Nil
  then show ?case by simp
next
  case (Cons x shown)
  obtain block hdr where x: "x = (block, hdr)" by (cases x)
  from Cons.prems have b: "block = base" and ch: "chained (base + header_size + blk_size hdr) shown"
    and r: "unat base + unat header_size + unat (blk_size hdr) < 2 ^ 64" and rs: "list_all in_range shown"
    by (simp_all add: x in_range_def)
  from r have "unat (base + header_size + blk_size hdr) = unat base + unat header_size + unat (blk_size hdr)"
    by (simp add: unat_word_ariths)
  then have le: "base \<le> base + header_size + blk_size hdr"
    by (simp add: word_le_nat_alt)
  from Cons.IH [OF ch rs] le b show ?case
    by (auto simp: x)
qed

lemma chained_sorted:
  assumes "chained base shown" "list_all in_range shown"
  shows "sorted_wrt (<) (map fst shown)"
  using assms
proof (induction shown arbitrary: base)
  case Nil
  then show ?case by simp
next
  case (Cons x shown)
  obtain block hdr where x: "x = (block, hdr)" by (cases x)
  from Cons.prems have b: "block = base" and ch: "chained (base + header_size + blk_size hdr) shown"
    and r: "unat base + unat header_size + unat (blk_size hdr) < 2 ^ 64" and rs: "list_all in_range shown"
    by (simp_all add: x in_range_def)
  from r have "unat (base + header_size + blk_size hdr) = unat base + unat header_size + unat (blk_size hdr)"
    by (simp add: unat_word_ariths)
  then have lt: "base < base + header_size + blk_size hdr"
    by (simp add: word_less_nat_alt unat_header_size)
  from chained_lower_bound [OF ch rs] lt have "\<forall>y\<in>set shown. base < fst y"
    by fastforce
  with Cons.IH [OF ch rs] b show ?case
    by (simp add: x)
qed

lemma mem_alloc_hit:
  assumes "n \<noteq> 0" and "mem_show s = Some blocks"
    and "first_fit blocks (align n) = Some ptr" and "ptr \<noteq> 0"
  shows "mem_alloc VirtualAlloc s n = hand_out s (ptr - header_size) (align n)"
    and "\<exists>s'. mem_alloc VirtualAlloc s n = Some (ptr, s')"
proof -
  from assms(3) obtain block hdr where f: "find (fits (align n)) blocks = Some (block, hdr)"
    and p: "ptr = block + header_size"
    by (auto simp: first_fit_def)
  from f have "(block, hdr) \<in> set blocks"
    by (auto simp: find_Some_iff in_set_conv_nth)
  with mem_show_arenas_memory [OF assms(2) [unfolded mem_show_def]]
  have "memory s block = Some hdr"
    by auto
  then obtain s' where h: "hand_out s block (align n) = Some (block + header_size, s')"
    using hand_out_Some by blast
  from mem_alloc_scan_first_fit [OF assms(2) [unfolded mem_show_def], of "align n"] f p assms(4)
  have scan: "mem_alloc_scan s (arena_list s) (align n) = hand_out s block (align n)"
    by (simp add: align_idem)
  from scan h assms(1,4) p show "mem_alloc VirtualAlloc s n = hand_out s (ptr - header_size) (align n)"
    by (simp add: mem_alloc_def)
  from scan h assms(1,4) p show "\<exists>s'. mem_alloc VirtualAlloc s n = Some (ptr, s')"
    by (simp add: mem_alloc_def)
qed

lemma mem_alloc_miss:
  assumes "n \<noteq> 0" and "mem_show s = Some blocks" and "first_fit blocks (align n) = None"
  shows "mem_alloc VirtualAlloc s n =
     (case arena_create VirtualAlloc s (align n + header_size) of
        (None, s2) \<Rightarrow> Some (0, s2)
      | (Some new_arena, s2) \<Rightarrow> block_alloc s2 new_arena (align n))"
proof -
  from assms(3) have "find (fits (align n)) blocks = None"
    by (simp add: first_fit_def)
  with mem_alloc_scan_first_fit [OF assms(2) [unfolded mem_show_def], of "align n"]
  have "mem_alloc_scan s (arena_list s) (align n) = Some (0, s)"
    by (simp add: align_idem)
  with assms(1) show ?thesis
    by (simp add: mem_alloc_def Let_def)
qed

lemma new_arena_size_ge:
  assumes "unat (align n) + unat header_size < 2 ^ 64"
    and "unat (default_arena_size s) + 3 < 2 ^ 64"
  shows "unat (align n) + unat header_size \<le> unat (new_arena_size s n)"
    and "unat (default_arena_size s) \<le> unat (new_arena_size s n)"
proof -
  let ?m = "max (align n + header_size) (default_arena_size s)"
  have req: "unat (align n + header_size) = unat (align n) + unat header_size"
    using assms(1) by (simp add: unat_word_ariths)
  then have "unat (align n + header_size) mod 4 = 0"
    using align_mod4 [of n] by (simp add: unat_header_size mod_add_left_eq [symmetric])
  then have "unat (align n + header_size) + 3 < 2 ^ 64"
    by (rule aligned_plus_3)
  with assms(2) have "unat ?m + 3 < 2 ^ 64"
    by (simp add: max_def)
  then have "?m \<le> align ?m"
    by (rule align_ge)
  then have le: "unat ?m \<le> unat (new_arena_size s n)"
    by (simp add: new_arena_size_def word_le_nat_alt)
  have "unat (align n + header_size) \<le> unat ?m" and "unat (default_arena_size s) \<le> unat ?m"
    by (simp_all add: word_le_nat_alt [symmetric])
  with le req show "unat (align n) + unat header_size \<le> unat (new_arena_size s n)"
    and "unat (default_arena_size s) \<le> unat (new_arena_size s n)"
    by simp_all
qed

lemma block_alloc_fresh_arena:
  assumes base: "memory s base = Some hdr" "is_free hdr"
    and fit: "align n \<le> blk_size hdr"
    and lt: "base < base + sz"
  shows "block_alloc s \<lparr>arena_size = sz, arena_base = base\<rparr> n = hand_out s base (align n)"
  using assms by (simp add: block_alloc_def block_alloc_loop_hit hand_out_def)

lemma hand_out_arena_list:
  assumes "hand_out s block n = Some (ptr, s')"
  shows "arena_list s' = arena_list s" and "ptr = block + header_size"
  using assms
  by (auto simp: hand_out_def block_split_def write_is_free_def Let_def
      split: option.splits if_splits)

lemma hand_out_zero:
  assumes "memory s block = Some hdr"
  shows "\<exists>s' hdr'. hand_out s block 0 = Some (block + header_size, s') \<and>
     memory s' block = Some hdr' \<and> \<not> is_free hdr' \<and> blk_size hdr' < 20"
proof -
  have ne: "block + header_size \<noteq> block"
    by (simp add: header_size_def)
  show ?thesis
    using assms ne
    by (auto simp: hand_out_def block_split_def write_is_free_def align_0 Let_def header_size_def
        not_le)
qed

lemma block_alloc_loop_null_aux:
  assumes major: "block_alloc_loop s arena n base = Some r"
  shows "fst r = 0 \<longrightarrow> memory s (- header_size) = None \<longrightarrow> snd r = s"
proof (rule block_alloc_loop.raw_induct
    [where P = "\<lambda>s arena n base r. fst r = 0 \<longrightarrow> memory s (- header_size) = None \<longrightarrow> snd r = s",
      OF _ major], intro impI, goal_cases)
  case (1 loop s arena n base r)
  note IH = 1(1) and body = 1(2) and null = 1(3) and top = 1(4)
  show ?case
  proof (cases "base < arena_base arena + arena_size arena")
    case False
    with body show ?thesis by auto
  next
    case lt: True
    with body obtain block where b: "memory s base = Some block"
      by (auto split: option.splits)
    show ?thesis
    proof (cases "is_free block \<and> n \<le> blk_size block")
      case True
      with body lt b have "fst r = base + header_size"
        by (auto split: option.splits)
      with null have "base = - header_size"
        by (simp add: add_eq_0_iff2)
      with b top show ?thesis by simp
    next
      case False
      with body lt b have "loop s arena n (base + header_size + blk_size block) = Some r"
        by auto
      from IH [OF this] null top show ?thesis
        by simp
    qed
  qed
qed

lemma block_alloc_loop_null:
  assumes "block_alloc_loop s arena n base = Some r"
    and "fst r = 0" and "memory s (- header_size) = None"
  shows "snd r = s"
  using block_alloc_loop_null_aux [OF assms(1)] assms(2,3) by simp

lemma mem_alloc_scan_null:
  assumes "mem_alloc_scan s arenas n = Some (0, s')" and "memory s (- header_size) = None"
  shows "s' = s"
  using assms
proof (induction arenas)
  case Nil
  then show ?case by simp
next
  case (Cons arena arenas)
  from Cons.prems(1) obtain ptr s1 where a: "block_alloc s arena n = Some (ptr, s1)"
    by (auto split: option.splits)
  show ?case
  proof (cases "ptr = 0")
    case True
    with a Cons.prems(2) have "s1 = s"
      using block_alloc_loop_null [of s arena "align n" "arena_base arena" "(ptr, s1)"]
      by (simp add: block_alloc_def)
    with a True Cons show ?thesis by simp
  next
    case False
    with a Cons.prems(1) show ?thesis by simp
  qed
qed

lemma mem_alloc_null:
  assumes ret: "mem_alloc VirtualAlloc s n = Some (0, s')"
    and top: "memory s (- header_size) = None"
    and va: "VirtualAlloc (new_arena_size s n) \<noteq> - header_size"
  shows "s' = s \<or>
    (VirtualAlloc (new_arena_size s n) \<noteq> 0 \<and>
     s' = s\<lparr>arena_list :=
              \<lparr>arena_size = new_arena_size s n,
                 arena_base = VirtualAlloc (new_arena_size s n)\<rparr> # arena_list s,
            memory := (memory s)(VirtualAlloc (new_arena_size s n) \<mapsto>
              \<lparr>blk_size = new_arena_size s n - header_size, is_free = True,
                 is_first = True, is_last = True\<rparr>),
            block_map := List.insert (VirtualAlloc (new_arena_size s n)) (block_map s)\<rparr>)"
proof (cases "n = 0")
  case True
  with ret show ?thesis by (simp add: mem_alloc_def)
next
  case False
  let ?sz = "new_arena_size s n"
  let ?base = "VirtualAlloc ?sz"
  let ?arena = "\<lparr>arena_size = ?sz, arena_base = ?base\<rparr>"
  let ?s2 = "s\<lparr>arena_list := ?arena # arena_list s,
      memory := (memory s)(?base \<mapsto>
        \<lparr>blk_size = ?sz - header_size, is_free = True, is_first = True, is_last = True\<rparr>),
      block_map := List.insert ?base (block_map s)\<rparr>"
  from ret False obtain ptr s1 where scan: "mem_alloc_scan s (arena_list s) (align n) = Some (ptr, s1)"
    by (auto simp: mem_alloc_def Let_def split: option.splits)
  show ?thesis
  proof (cases "ptr = 0")
    case ne: False
    with ret False scan show ?thesis
      by (simp add: mem_alloc_def Let_def)
  next
    case True
    with scan top have s1: "s1 = s"
      by (auto dest: mem_alloc_scan_null)
    show ?thesis
    proof (cases "?base = 0")
      case True
      with ret False scan \<open>ptr = 0\<close> s1 show ?thesis
        by (simp add: mem_alloc_def arena_create_def new_arena_size_def Let_def)
    next
      case nz: False
      with ret False scan \<open>ptr = 0\<close> s1 have "block_alloc ?s2 ?arena (align n) = Some (0, s')"
        by (simp add: mem_alloc_def arena_create_def new_arena_size_def Let_def)
      moreover have "memory ?s2 (- header_size) = None"
        using top va by simp
      ultimately have "s' = ?s2"
        using block_alloc_loop_null [of ?s2 ?arena "align (align n)" ?base "(0, s')"]
        by (simp add: block_alloc_def)
      with nz show ?thesis by simp
    qed
  qed
qed

lemma new_arena_size_align: "new_arena_size s (align n) = new_arena_size s n"
  by (simp add: new_arena_size_def align_idem)

section \<open>Runs on concrete states\<close>

lemmas run_simps = mem_alloc_def block_alloc_def block_alloc_loop.simps arena_create_def
  block_split_def write_is_free_def configure_def align_def header_size_def Let_def
  mem_free_def block_unite_def block_unite_loop.simps mem_realloc_def

lemma middle_freed_run:
  "\<exists>s1 s2 s3. mem_alloc (\<lambda>_. 0x10000) (configure 4096) 200 = Some (0x10010, s1) \<and>
      mem_alloc (\<lambda>_. 0x10000) s1 200 = Some (0x100E8, s2) \<and>
      mem_alloc (\<lambda>_. 0x10000) s2 200 = Some (0x101C0, s3) \<and>
      mem_free s3 0x100E8 = Some middle_freed"
  by (simp add: run_simps middle_freed_def)

lemma mem_show_middle_freed:
  "mem_show middle_freed = Some
     [(0x10000, \<lparr>blk_size = 200, is_free = False, is_first = True, is_last = False\<rparr>),
      (0x100D8, \<lparr>blk_size = 200, is_free = True, is_first = False, is_last = False\<rparr>),
      (0x101B0, \<lparr>blk_size = 200, is_free = False, is_first = False, is_last = False\<rparr>),
      (0x10288, \<lparr>blk_size = 3432, is_free = True, is_first = False, is_last = True\<rparr>)]"
  by (simp add: mem_show_def mem_show_arena_def mem_show_loop.simps middle_freed_def header_size_def)

lemma middle_freed_reused:
  assumes "k \<noteq> 0" "k \<le> 200"
  shows "\<exists>s'. mem_alloc VirtualAlloc middle_freed k = Some (0x100E8, s')"
proof -
  from assms(2) have "align k \<le> 200"
    by (rule align_le_mono) simp
  then have "first_fit
     [(0x10000, \<lparr>blk_size = 200, is_free = False, is_first = True, is_last = False\<rparr>),
      (0x100D8, \<lparr>blk_size = 200, is_free = True, is_first = False, is_last = False\<rparr>),
      (0x101B0, \<lparr>blk_size = 200, is_free = False, is_first = False, is_last = False\<rparr>),
      (0x10288, \<lparr>blk_size = 3432, is_free = True, is_first = False, is_last = True\<rparr>)] (align k)
     = Some 0x100E8"
    by (simp add: first_fit_def fits_def header_size_def)
  with assms(1) mem_show_middle_freed show ?thesis
    using mem_alloc_hit(2) [of k middle_freed _ "0x100E8" VirtualAlloc] by simp
qed

lemma adjacent_arenas_run:
  "\<exists>s1. mem_alloc (\<lambda>_. 0x10000) (configure 0x10000) 60000 = Some (0x10010, s1) \<and>
     mem_alloc (\<lambda>_. 0x20000) s1 60000 = Some (0x20010, adjacent_arenas)"
  by (simp add: run_simps adjacent_arenas_def)

lemma merged_across_run:
  "mem_free adjacent_arenas 0x20010 = Some merged_across"
  by (simp add: run_simps adjacent_arenas_def merged_across_def)

lemma stale_pair_run:
  "\<exists>s1 s2 s3 s4.
     mem_alloc (\<lambda>_. 0x10000) (configure 0x10000) 50000 = Some (0x10010, s1) \<and>
     mem_alloc (\<lambda>_. 0x20000) s1 60000 = Some (0x20010, s2) \<and>
     mem_alloc (\<lambda>_. 0) s2 10000 = Some (0x1C370, s3) \<and>
     no_adjacent_free s3 \<and>
     write_is_free s3 0x20000 True = Some s4 \<and>
     block_unite s4 = Some stale_pair \<and>
     mem_free s3 0x20010 = Some stale_pair"
  by (simp add: run_simps stale_pair_def no_adjacent_free_def arena_coalesced_def
      mem_show_arena_def mem_show_loop.simps adjacent_free_def)

lemma stale_pair_served:
  "\<exists>s5 s6. mem_alloc (\<lambda>_. 0) stale_pair 60000 = Some (0x20010, s5) \<and>
     mem_alloc (\<lambda>_. 0) s5 5504 = Some (0x2EA80, s6)"
  by (simp add: run_simps stale_pair_def)

section \<open>The claims\<close>

text \<open>
  C1 (amended). A request whose aligned size overflows the 64 bits (a size above
  \<open>2 ^ 64 - 4\<close>) is not refused: \<open>align\<close> returns 0 for it, \<open>mem_alloc\<close> then hands out
  the first free block of the scan, cut down to less than 20 bytes, and \<open>mem_realloc\<close>
  of a tracked pointer returns that pointer after shrinking its block in place.
\<close>

theorem oversized_request_wraps:
  assumes "2 ^ 64 \<le> unat n + 3"
  shows "align n = 0 \<and>
    (mem_show s = Some blocks \<and> first_fit blocks 0 = Some ptr \<and> ptr \<noteq> 0 \<longrightarrow>
       (\<exists>s' hdr'. mem_alloc VirtualAlloc s n = Some (ptr, s') \<and>
          memory s' (ptr - header_size) = Some hdr' \<and> \<not> is_free hdr' \<and> blk_size hdr' < 20)) \<and>
    (ptr \<noteq> 0 \<and> ptr - header_size \<in> set (block_map s) \<and> memory s (ptr - header_size) = Some hdr \<longrightarrow>
       (\<exists>s'. mem_realloc VirtualAlloc s ptr n = Some (ptr, s') \<and>
          block_split s (ptr - header_size) 0 = Some s'))"
proof (intro conjI impI)
  show z: "align n = 0"
    using assms by (rule align_oversized)
  have nz: "n \<noteq> 0"
    using assms by auto
  show "\<exists>s' hdr'. mem_alloc VirtualAlloc s n = Some (ptr, s') \<and>
          memory s' (ptr - header_size) = Some hdr' \<and> \<not> is_free hdr' \<and> blk_size hdr' < 20"
    if a: "mem_show s = Some blocks \<and> first_fit blocks 0 = Some ptr \<and> ptr \<noteq> 0"
  proof -
    from a obtain block hdr where f: "find (fits 0) blocks = Some (block, hdr)"
      and p: "ptr = block + header_size"
      by (auto simp: first_fit_def)
    from f have "(block, hdr) \<in> set blocks"
      by (auto simp: find_Some_iff in_set_conv_nth)
    with a mem_show_arenas_memory [of s "arena_list s" blocks]
    have "memory s block = Some hdr"
      by (auto simp: mem_show_def)
    from hand_out_zero [OF this] mem_alloc_hit(1) [of n s blocks ptr VirtualAlloc] a nz p
    show ?thesis
      by (simp add: z)
  qed
  show "\<exists>s'. mem_realloc VirtualAlloc s ptr n = Some (ptr, s') \<and>
          block_split s (ptr - header_size) 0 = Some s'"
    if "ptr \<noteq> 0 \<and> ptr - header_size \<in> set (block_map s) \<and> memory s (ptr - header_size) = Some hdr"
    using that by (auto simp: mem_realloc_def z block_split_def align_0 Let_def)
qed

text \<open>
  A request of \<open>2 ^ 64 - 1\<close> bytes on a fresh allocator returns a pointer to a block of
  0 bytes.
\<close>

theorem oversized_request_counterexample:
  "2 ^ 64 \<le> unat (0xFFFFFFFFFFFFFFFF :: size_t) + 3 \<and>
   (\<exists>s'. mem_alloc (\<lambda>_. 0x10000) (configure 4096) 0xFFFFFFFFFFFFFFFF = Some (0x10010, s') \<and>
      memory s' 0x10000 =
        Some \<lparr>blk_size = 0, is_free = False, is_first = True, is_last = False\<rparr>)"
  by (simp add: run_simps)

theorem oversized_request_wraps_witness:
  "align 0xFFFFFFFFFFFFFFFE = 0 \<and>
   (\<exists>s' hdr'. mem_alloc (\<lambda>_. 0) one_arena 0xFFFFFFFFFFFFFFFE = Some (0x10010, s') \<and>
      memory s' 0x10000 = Some hdr' \<and> \<not> is_free hdr' \<and> blk_size hdr' < 20) \<and>
   (\<exists>s'. mem_realloc (\<lambda>_. 0) fragmented 0x10060 0xFFFFFFFFFFFFFFFE = Some (0x10060, s') \<and>
      block_split fragmented 0x10050 0 = Some s')"
proof -
  have o: "2 ^ 64 \<le> unat (0xFFFFFFFFFFFFFFFE :: size_t) + 3"
    by simp
  have sh: "mem_show one_arena =
      Some [(0x10000, \<lparr>blk_size = 4080, is_free = True, is_first = True, is_last = True\<rparr>)]"
    by (simp add: mem_show_def mem_show_arena_def mem_show_loop.simps one_arena_def header_size_def)
  have ff: "first_fit [(0x10000, \<lparr>blk_size = 4080, is_free = True, is_first = True, is_last = True\<rparr>)] 0
      = Some 0x10010"
    by (simp add: first_fit_def fits_def header_size_def)
  have tr: "0x10060 - header_size \<in> set (block_map fragmented)"
    "memory fragmented (0x10060 - header_size) =
      Some \<lparr>blk_size = 4000, is_free = False, is_first = False, is_last = True\<rparr>"
    by (simp_all add: fragmented_def header_size_def)
  show ?thesis
    using oversized_request_wraps [OF o, of one_arena _ "0x10010" "\<lambda>_. 0"] sh ff
      oversized_request_wraps [OF o, of fragmented _ "0x10060" "\<lambda>_. 0"] tr
    by (simp add: header_size_def)
qed

text \<open>
  C2. Two arenas granted back to back: after the free of the second arena's block
  the walk of the first arena adds up to 131072 bytes, twice the arena's size.
\<close>

theorem arena_sizes_broken_by_merge:
  "sizes_add_up adjacent_arenas \<and>
   mem_free adjacent_arenas 0x20010 = Some merged_across \<and>
   mem_show_arena merged_across \<lparr>arena_size = 0x10000, arena_base = 0x10000\<rparr> =
     Some [(0x10000, \<lparr>blk_size = 60000, is_free = False, is_first = True, is_last = False\<rparr>),
           (0x1EA70, \<lparr>blk_size = 71040, is_free = True, is_first = False, is_last = True\<rparr>)] \<and>
   arena_total merged_across \<lparr>arena_size = 0x10000, arena_base = 0x10000\<rparr> = Some 131072 \<and>
   \<not> sizes_add_up merged_across"
proof -
  have w: "mem_show_arena merged_across \<lparr>arena_size = 0x10000, arena_base = 0x10000\<rparr> =
     Some [(0x10000, \<lparr>blk_size = 60000, is_free = False, is_first = True, is_last = False\<rparr>),
           (0x1EA70, \<lparr>blk_size = 71040, is_free = True, is_first = False, is_last = True\<rparr>)]"
    by (simp add: mem_show_arena_def mem_show_loop.simps merged_across_def header_size_def)
  then have t: "arena_total merged_across \<lparr>arena_size = 0x10000, arena_base = 0x10000\<rparr> = Some 131072"
    by (simp add: arena_total_def header_size_def)
  then have "\<not> sizes_add_up merged_across"
    by (simp add: sizes_add_up_def merged_across_def)
  moreover have "sizes_add_up adjacent_arenas"
    by (simp add: sizes_add_up_def arena_total_def mem_show_arena_def mem_show_loop.simps
        adjacent_arenas_def header_size_def)
  ultimately show ?thesis
    using w t merged_across_run by blast
qed

text \<open>
  C3. Two arenas granted back to back: \<open>mem_free\<close> of the second arena's block merges
  the last block of the first arena with the first block of the second, and the two
  allocations that follow overlap.
\<close>

theorem coalescing_crosses_arenas:
  "(\<exists>s1. mem_alloc (\<lambda>_. 0x10000) (configure 0x10000) 60000 = Some (0x10010, s1) \<and>
      mem_alloc (\<lambda>_. 0x20000) s1 60000 = Some (0x20010, adjacent_arenas)) \<and>
   mem_free adjacent_arenas 0x20010 = Some merged_across \<and>
   in_arena \<lparr>arena_size = 0x10000, arena_base = 0x10000\<rparr> 0x1EA70 \<and>
   \<not> in_arena \<lparr>arena_size = 0x10000, arena_base = 0x10000\<rparr> 0x20000 \<and>
   in_arena \<lparr>arena_size = 0x10000, arena_base = 0x20000\<rparr> 0x20000 \<and>
   0x20000 \<in> set (block_map adjacent_arenas) \<and>
   0x20000 \<notin> set (block_map merged_across) \<and>
   map_option blk_size (memory adjacent_arenas 0x1EA70) = Some 5504 \<and>
   map_option blk_size (memory merged_across 0x1EA70) = Some (5504 + 16 + 65520) \<and>
   (\<exists>s4 s5. mem_alloc (\<lambda>_. 0) merged_across 70000 = Some (0x1EA80, s4) \<and>
      mem_alloc (\<lambda>_. 0) s4 60000 = Some (0x20010, s5))"
proof -
  have "\<exists>s4 s5. mem_alloc (\<lambda>_. 0) merged_across 70000 = Some (0x1EA80, s4) \<and>
      mem_alloc (\<lambda>_. 0) s4 60000 = Some (0x20010, s5)"
    by (simp add: run_simps merged_across_def)
  moreover have "in_arena \<lparr>arena_size = 0x10000, arena_base = 0x10000\<rparr> 0x1EA70 \<and>
   \<not> in_arena \<lparr>arena_size = 0x10000, arena_base = 0x10000\<rparr> 0x20000 \<and>
   in_arena \<lparr>arena_size = 0x10000, arena_base = 0x20000\<rparr> 0x20000"
    by (simp add: in_arena_def)
  moreover have "0x20000 \<in> set (block_map adjacent_arenas) \<and>
   0x20000 \<notin> set (block_map merged_across) \<and>
   map_option blk_size (memory adjacent_arenas 0x1EA70) = Some 5504 \<and>
   map_option blk_size (memory merged_across 0x1EA70) = Some (5504 + 16 + 65520)"
    by (simp add: adjacent_arenas_def merged_across_def)
  ultimately show ?thesis
    using adjacent_arenas_run merged_across_run by blast
qed

text \<open>
  C4. A second coalescing pass changes nothing (\<open>block_unite_fixed\<close>), but the state one
  pass leaves can hold two free blocks side by side in one arena. Two arenas granted
  back to back; 50000 and 10000 bytes are handed out in the first, 60000 bytes in the
  second. Before the free no arena has two adjacent free blocks. \<open>mem_free\<close> of the
  second arena's block runs the pass from the last block of the first arena, at
  \<open>0x1EA80\<close>: it absorbs the second arena's first block and then its last block, and
  takes both out of the block map with their headers left flagged free. The state is
  a fixed point of the pass, yet the walk of the second arena from its base finds a
  free block of 60000 bytes followed by a free block of 5504 bytes, and the next two
  allocations hand out these two blocks one after the other.
\<close>

theorem coalescing_leaves_adjacent_free:
  "(\<exists>s1 s2 s3 s4.
      mem_alloc (\<lambda>_. 0x10000) (configure 0x10000) 50000 = Some (0x10010, s1) \<and>
      mem_alloc (\<lambda>_. 0x20000) s1 60000 = Some (0x20010, s2) \<and>
      mem_alloc (\<lambda>_. 0) s2 10000 = Some (0x1C370, s3) \<and>
      no_adjacent_free s3 \<and>
      write_is_free s3 0x20000 True = Some s4 \<and>
      block_unite s4 = Some stale_pair \<and>
      mem_free s3 0x20010 = Some stale_pair) \<and>
   block_unite stale_pair = Some stale_pair \<and>
   mem_show_arena stale_pair \<lparr>arena_size = 0x10000, arena_base = 0x20000\<rparr> =
     Some [(0x20000, \<lparr>blk_size = 60000, is_free = True, is_first = True, is_last = False\<rparr>),
           (0x2EA70, \<lparr>blk_size = 5504, is_free = True, is_first = False, is_last = True\<rparr>)] \<and>
   in_arena \<lparr>arena_size = 0x10000, arena_base = 0x20000\<rparr> 0x20000 \<and>
   in_arena \<lparr>arena_size = 0x10000, arena_base = 0x20000\<rparr> 0x2EA70 \<and>
   adjacent_free
     ((0x20000, \<lparr>blk_size = 60000, is_free = True, is_first = True, is_last = False\<rparr>),
      (0x2EA70, \<lparr>blk_size = 5504, is_free = True, is_first = False, is_last = True\<rparr>)) \<and>
   \<not> arena_coalesced stale_pair \<lparr>arena_size = 0x10000, arena_base = 0x20000\<rparr> \<and>
   \<not> no_adjacent_free stale_pair \<and>
   in_arena \<lparr>arena_size = 0x10000, arena_base = 0x10000\<rparr> 0x1EA80 \<and>
   map_option blk_size (memory stale_pair 0x1EA80) = Some (5488 + 16 + 60000 + 16 + 5504) \<and>
   (\<exists>s5 s6. mem_alloc (\<lambda>_. 0) stale_pair 60000 = Some (0x20010, s5) \<and>
      mem_alloc (\<lambda>_. 0) s5 5504 = Some (0x2EA80, s6))"
proof -
  have w: "mem_show_arena stale_pair \<lparr>arena_size = 0x10000, arena_base = 0x20000\<rparr> =
     Some [(0x20000, \<lparr>blk_size = 60000, is_free = True, is_first = True, is_last = False\<rparr>),
           (0x2EA70, \<lparr>blk_size = 5504, is_free = True, is_first = False, is_last = True\<rparr>)]"
    by (simp add: mem_show_arena_def mem_show_loop.simps stale_pair_def header_size_def)
  have a: "adjacent_free
     ((0x20000, \<lparr>blk_size = 60000, is_free = True, is_first = True, is_last = False\<rparr>),
      (0x2EA70, \<lparr>blk_size = 5504, is_free = True, is_first = False, is_last = True\<rparr>))"
    by (simp add: adjacent_free_def header_size_def)
  from w a have c: "\<not> arena_coalesced stale_pair \<lparr>arena_size = 0x10000, arena_base = 0x20000\<rparr>"
    by (simp add: arena_coalesced_def)
  then have n: "\<not> no_adjacent_free stale_pair"
    by (simp add: no_adjacent_free_def stale_pair_def)
  have f: "block_unite stale_pair = Some stale_pair"
    by (simp add: run_simps stale_pair_def)
  have i: "in_arena \<lparr>arena_size = 0x10000, arena_base = 0x20000\<rparr> 0x20000 \<and>
   in_arena \<lparr>arena_size = 0x10000, arena_base = 0x20000\<rparr> 0x2EA70 \<and>
   in_arena \<lparr>arena_size = 0x10000, arena_base = 0x10000\<rparr> 0x1EA80"
    by (simp add: in_arena_def)
  have m: "map_option blk_size (memory stale_pair 0x1EA80) = Some (5488 + 16 + 60000 + 16 + 5504)"
    by (simp add: stale_pair_def)
  show ?thesis
    using stale_pair_run stale_pair_served w a c n f i m by blast
qed

text \<open>
  C5. When the first free block of the scan that is large enough for the aligned
  request exists, \<open>mem_alloc\<close> hands out exactly that block and returns the address
  after its header. The scan is the walk of \<open>mem_show\<close>: the arenas in list order, a
  new arena always at the head of the list, and in each arena the blocks chained from
  its base, in increasing address order when they lie in range. After three
  allocations of 200 bytes and the free of the second, every request of at most 200
  bytes is given the pointer of the second.
\<close>

theorem mem_alloc_first_fit:
  "(n \<noteq> 0 \<and> mem_show s = Some blocks \<and> first_fit blocks (align n) = Some ptr \<and> ptr \<noteq> 0 \<longrightarrow>
      mem_alloc VirtualAlloc s n = hand_out s (ptr - header_size) (align n) \<and>
      (\<exists>s'. mem_alloc VirtualAlloc s n = Some (ptr, s'))) \<and>
   (arena_create VirtualAlloc s m = (Some new_arena, s2) \<longrightarrow>
      arena_list s2 = new_arena # arena_list s) \<and>
   (mem_show_arena t arena = Some shown \<longrightarrow>
      chained (arena_base arena) shown \<and>
      (list_all in_range shown \<longrightarrow> sorted_wrt (<) (map fst shown))) \<and>
   (\<exists>s1 s2 s3. mem_alloc (\<lambda>_. 0x10000) (configure 4096) 200 = Some (0x10010, s1) \<and>
      mem_alloc (\<lambda>_. 0x10000) s1 200 = Some (0x100E8, s2) \<and>
      mem_alloc (\<lambda>_. 0x10000) s2 200 = Some (0x101C0, s3) \<and>
      mem_free s3 0x100E8 = Some middle_freed) \<and>
   (\<forall>k. k \<noteq> 0 \<and> k \<le> 200 \<longrightarrow>
      (\<exists>s'. mem_alloc (\<lambda>_. 0x10000) middle_freed k = Some (0x100E8, s')))"
proof (intro conjI impI allI)
  assume a: "n \<noteq> 0 \<and> mem_show s = Some blocks \<and> first_fit blocks (align n) = Some ptr \<and> ptr \<noteq> 0"
  then show "mem_alloc VirtualAlloc s n = hand_out s (ptr - header_size) (align n)"
    using mem_alloc_hit(1) [of n s blocks ptr VirtualAlloc] by simp
  from a show "\<exists>s'. mem_alloc VirtualAlloc s n = Some (ptr, s')"
    using mem_alloc_hit(2) [of n s blocks ptr VirtualAlloc] by simp
next
  assume "arena_create VirtualAlloc s m = (Some new_arena, s2)"
  then show "arena_list s2 = new_arena # arena_list s"
    by (auto simp: arena_create_def Let_def split: if_splits)
next
  assume w: "mem_show_arena t arena = Some shown"
  then show ch: "chained (arena_base arena) shown"
    unfolding mem_show_arena_def by (rule mem_show_loop_chained)
  show "sorted_wrt (<) (map fst shown)" if "list_all in_range shown"
    using ch that by (rule chained_sorted)
next
  show "\<exists>s1 s2 s3. mem_alloc (\<lambda>_. 0x10000) (configure 4096) 200 = Some (0x10010, s1) \<and>
      mem_alloc (\<lambda>_. 0x10000) s1 200 = Some (0x100E8, s2) \<and>
      mem_alloc (\<lambda>_. 0x10000) s2 200 = Some (0x101C0, s3) \<and>
      mem_free s3 0x100E8 = Some middle_freed"
    by (rule middle_freed_run)
next
  fix k :: size_t assume "k \<noteq> 0 \<and> k \<le> 200"
  then show "\<exists>s'. mem_alloc (\<lambda>_. 0x10000) middle_freed k = Some (0x100E8, s')"
    using middle_freed_reused [of k] by simp
qed

theorem mem_alloc_first_fit_witness:
  "(\<exists>s'. mem_alloc (\<lambda>_. 0x10000) middle_freed 200 = Some (0x100E8, s')) \<and>
   arena_list one_arena = [\<lparr>arena_size = 4096, arena_base = 0x10000\<rparr>] \<and>
   sorted_wrt (<) [0x10000, 0x100D8, 0x101B0, 0x10288 :: addr]"
proof -
  let ?blocks = "[(0x10000, \<lparr>blk_size = 200, is_free = False, is_first = True, is_last = False\<rparr>),
      (0x100D8, \<lparr>blk_size = 200, is_free = True, is_first = False, is_last = False\<rparr>),
      (0x101B0, \<lparr>blk_size = 200, is_free = False, is_first = False, is_last = False\<rparr>),
      (0x10288 :: addr, \<lparr>blk_size = 3432, is_free = True, is_first = False, is_last = True\<rparr>)]"
  have ff: "first_fit ?blocks (align 200) = Some 0x100E8"
    by (simp add: first_fit_def fits_def header_size_def align_def)
  have sh: "mem_show_arena middle_freed \<lparr>arena_size = 4096, arena_base = 0x10000\<rparr> = Some ?blocks"
    by (simp add: mem_show_arena_def mem_show_loop.simps middle_freed_def header_size_def)
  have r: "list_all in_range ?blocks"
    by (simp add: in_range_def header_size_def)
  note here = mem_alloc_first_fit [of 200 middle_freed ?blocks "0x100E8" "\<lambda>_. 0x10000"
      4096 _ _ middle_freed "\<lparr>arena_size = 4096, arena_base = 0x10000\<rparr>" ?blocks]
  note fresh = mem_alloc_first_fit [of _ "configure 4096" _ _ "\<lambda>_. 0x10000"
      4096 "\<lparr>arena_size = 4096, arena_base = 0x10000\<rparr>" one_arena]
  have pre: "(200 :: size_t) \<noteq> 0 \<and> mem_show middle_freed = Some ?blocks \<and>
      first_fit ?blocks (align 200) = Some 0x100E8 \<and> (0x100E8 :: addr) \<noteq> 0"
    using mem_show_middle_freed ff by simp
  from here [THEN conjunct1, THEN mp, OF pre, THEN conjunct2]
  have "\<exists>s'. mem_alloc (\<lambda>_. 0x10000) middle_freed 200 = Some (0x100E8, s')" .
  moreover from fresh [THEN conjunct2, THEN conjunct1] arena_create_one_arena
  have "arena_list one_arena = [\<lparr>arena_size = 4096, arena_base = 0x10000\<rparr>]"
    by (simp add: configure_def)
  moreover from here [THEN conjunct2, THEN conjunct2, THEN conjunct1] sh r
  have "sorted_wrt (<) [0x10000, 0x100D8, 0x101B0, 0x10288 :: addr]"
    by simp
  ultimately show ?thesis
    by blast
qed

text \<open>
  C6 (amended). When no block of the scan fits the request: if \<open>VirtualAlloc\<close> refuses,
  \<open>mem_alloc\<close> returns null and the state is unchanged; if it grants memory, one arena
  is put at the head of the list, with one free block, and the walk is retried on that
  arena alone. Provided that the aligned request plus the header size and the
  alignment of the default arena size do not overflow, the arena is at least as large
  as the aligned request plus the header and as the default size, and the retry hands
  out its block when the granted memory ends inside the address space.
\<close>

theorem mem_alloc_new_arena:
  assumes "n \<noteq> 0" and "mem_show s = Some blocks" and "first_fit blocks (align n) = None"
  shows "(VirtualAlloc (new_arena_size s n) = 0 \<longrightarrow> mem_alloc VirtualAlloc s n = Some (0, s)) \<and>
    (VirtualAlloc (new_arena_size s n) \<noteq> 0 \<longrightarrow>
       mem_alloc VirtualAlloc s n =
         block_alloc
           (s\<lparr>arena_list :=
                \<lparr>arena_size = new_arena_size s n,
                   arena_base = VirtualAlloc (new_arena_size s n)\<rparr> # arena_list s,
              memory := (memory s)(VirtualAlloc (new_arena_size s n) \<mapsto>
                \<lparr>blk_size = new_arena_size s n - header_size, is_free = True,
                   is_first = True, is_last = True\<rparr>),
              block_map := List.insert (VirtualAlloc (new_arena_size s n)) (block_map s)\<rparr>)
           \<lparr>arena_size = new_arena_size s n, arena_base = VirtualAlloc (new_arena_size s n)\<rparr>
           (align n)) \<and>
    (unat (align n) + unat header_size < 2 ^ 64 \<and> unat (default_arena_size s) + 3 < 2 ^ 64 \<longrightarrow>
       unat (align n) + unat header_size \<le> unat (new_arena_size s n) \<and>
       unat (default_arena_size s) \<le> unat (new_arena_size s n) \<and>
       (VirtualAlloc (new_arena_size s n) \<noteq> 0 \<and>
        unat (VirtualAlloc (new_arena_size s n)) + unat (new_arena_size s n) < 2 ^ 64 \<longrightarrow>
          (\<exists>s'. mem_alloc VirtualAlloc s n = Some (VirtualAlloc (new_arena_size s n) + header_size, s') \<and>
             arena_list s' =
               \<lparr>arena_size = new_arena_size s n,
                  arena_base = VirtualAlloc (new_arena_size s n)\<rparr> # arena_list s)))"
proof -
  let ?sz = "new_arena_size s n"
  let ?base = "VirtualAlloc ?sz"
  let ?arena = "\<lparr>arena_size = ?sz, arena_base = ?base\<rparr>"
  let ?hdr = "\<lparr>blk_size = ?sz - header_size, is_free = True, is_first = True, is_last = True\<rparr>"
  let ?s2 = "s\<lparr>arena_list := ?arena # arena_list s, memory := (memory s)(?base \<mapsto> ?hdr),
              block_map := List.insert ?base (block_map s)\<rparr>"
  note miss = mem_alloc_miss [OF assms, of VirtualAlloc]
  have refuse: "mem_alloc VirtualAlloc s n = Some (0, s)" if "?base = 0"
    using that by (simp add: miss arena_create_def new_arena_size_def Let_def)
  have grant: "mem_alloc VirtualAlloc s n = block_alloc ?s2 ?arena (align n)" if "?base \<noteq> 0"
    using that by (simp add: miss arena_create_def new_arena_size_def Let_def)
  have served: "\<exists>s'. mem_alloc VirtualAlloc s n = Some (?base + header_size, s') \<and>
      arena_list s' = ?arena # arena_list s"
    if ov: "unat (align n) + unat header_size < 2 ^ 64" "unat (default_arena_size s) + 3 < 2 ^ 64"
      and nz: "?base \<noteq> 0" and rg: "unat ?base + unat ?sz < 2 ^ 64"
  proof -
    note ge = new_arena_size_ge [OF ov]
    from ge(1) have hs: "header_size \<le> ?sz"
      by (simp add: word_le_nat_alt)
    then have "unat (?sz - header_size) = unat ?sz - unat header_size"
      by (rule unat_sub)
    with ge(1) have "unat (align n) \<le> unat (?sz - header_size)"
      by simp
    then have fit: "align (align n) \<le> blk_size ?hdr"
      by (simp add: word_le_nat_alt align_idem)
    from rg have "unat (?base + ?sz) = unat ?base + unat ?sz"
      by (simp add: unat_word_ariths)
    with ge(1) have lt: "?base < ?base + ?sz"
      by (simp add: word_less_nat_alt unat_header_size)
    have "block_alloc ?s2 ?arena (align n) = hand_out ?s2 ?base (align (align n))"
      using block_alloc_fresh_arena [of ?s2 ?base ?hdr "align n" ?sz] fit lt by simp
    moreover obtain s' where h: "hand_out ?s2 ?base (align (align n)) = Some (?base + header_size, s')"
      using hand_out_Some [of ?s2 ?base ?hdr] by auto
    moreover from hand_out_arena_list(1) [OF h] have "arena_list s' = ?arena # arena_list s"
      by simp
    ultimately show ?thesis
      using grant [OF nz] by simp
  qed
  from refuse grant served new_arena_size_ge [of n s] show ?thesis
    by blast
qed

text \<open>
  A request of \<open>2 ^ 64 - 8\<close> bytes on a fresh allocator creates an arena of 4096 bytes.
\<close>

theorem new_arena_size_counterexample:
  "mem_show (configure 4096) = Some [] \<and>
   first_fit [] (align 0xFFFFFFFFFFFFFFF8) = None \<and>
   (\<exists>s'. mem_alloc (\<lambda>_. 0x10000) (configure 4096) 0xFFFFFFFFFFFFFFF8 = Some (0, s') \<and>
      arena_list s' = [\<lparr>arena_size = 4096, arena_base = 0x10000\<rparr>]) \<and>
   (4096 :: nat) < unat (align 0xFFFFFFFFFFFFFFF8) + unat header_size"
  by (simp add: run_simps mem_show_def first_fit_def)

text \<open>
  The run of the specification: 2000 bytes are served from the first arena, and 8501
  bytes force an arena of 8520 bytes.
\<close>

theorem mem_alloc_new_arena_witness:
  "mem_alloc (\<lambda>_. 0x10000) (configure 4096) 2000 = Some (0x10010, after_2000) \<and>
   new_arena_size after_2000 8501 = 8520 \<and>
   (8501 :: nat) + unat header_size \<le> 8520 \<and>
   (\<exists>s'. mem_alloc (\<lambda>_. 0x30000) after_2000 8501 = Some (0x30010, s') \<and>
      arena_list s' = \<lparr>arena_size = 8520, arena_base = 0x30000\<rparr> # arena_list after_2000) \<and>
   mem_alloc (\<lambda>_. 0) after_2000 8501 = Some (0, after_2000)"
proof -
  have a: "mem_alloc (\<lambda>_. 0x10000) (configure 4096) 2000 = Some (0x10010, after_2000)"
    by (simp add: run_simps after_2000_def)
  have sz: "new_arena_size after_2000 8501 = 8520"
    by (simp add: new_arena_size_def after_2000_def align_def header_size_def)
  have sh: "mem_show after_2000 = Some
     [(0x10000, \<lparr>blk_size = 2000, is_free = False, is_first = True, is_last = False\<rparr>),
      (0x107E0, \<lparr>blk_size = 2064, is_free = True, is_first = False, is_last = True\<rparr>)]"
    by (simp add: mem_show_def mem_show_arena_def mem_show_loop.simps after_2000_def header_size_def)
  have ff: "first_fit
     [(0x10000, \<lparr>blk_size = 2000, is_free = False, is_first = True, is_last = False\<rparr>),
      (0x107E0, \<lparr>blk_size = 2064, is_free = True, is_first = False, is_last = True\<rparr>)] (align 8501)
     = None"
    by (simp add: first_fit_def fits_def align_def)
  have d: "default_arena_size after_2000 = 4096" "align 8501 = 8504"
    by (simp_all add: after_2000_def align_def)
  have nz: "(8501 :: size_t) \<noteq> 0"
    by simp
  have served: "\<exists>s'. mem_alloc (\<lambda>_. 0x30000) after_2000 8501 = Some (0x30010, s') \<and>
      arena_list s' = \<lparr>arena_size = 8520, arena_base = 0x30000\<rparr> # arena_list after_2000"
    using mem_alloc_new_arena [OF nz sh ff, of "\<lambda>_. 0x30000", THEN conjunct2, THEN conjunct2] sz d
    by (simp add: header_size_def)
  have refused: "mem_alloc (\<lambda>_. 0) after_2000 8501 = Some (0, after_2000)"
    using mem_alloc_new_arena [OF nz sh ff, of "\<lambda>_. 0", THEN conjunct1] by simp
  from a sz served refused show ?thesis
    by (simp add: header_size_def)
qed

text \<open>
  C7. A block that allocation chose (a free block at least as large as the aligned
  request) and that is smaller than the address space by header and 4 bytes: when
  its size leaves room for the request, a header and 4 bytes, \<open>block_split\<close> shrinks it
  to the request, clears its \<open>is_last\<close>, and writes and registers a free block right
  after it that takes over \<open>is_last\<close> and has \<open>is_first\<close> cleared; otherwise it leaves
  the state as it is. Either way the walk then hands the block out, not free.
\<close>

theorem block_split_spec:
  assumes h: "memory s block = Some hdr"
    and al: "align n = n"
    and range: "unat (blk_size hdr) + unat header_size + 4 < 2 ^ 64"
    and fit: "n \<le> blk_size hdr"
  shows "(unat n + unat header_size + 4 \<le> unat (blk_size hdr) \<longrightarrow>
            (\<exists>s'. block_split s block n = Some s' \<and>
                  memory s' block = Some (hdr\<lparr>blk_size := n, is_last := False\<rparr>) \<and>
                  memory s' (block + header_size + n) =
                    Some \<lparr>blk_size = blk_size hdr - n - header_size, is_free = True,
                          is_first = False, is_last = is_last hdr\<rparr> \<and>
                  unat (blk_size hdr - n - header_size) = unat (blk_size hdr) - unat n - unat header_size \<and>
                  block + header_size + n \<in> set (block_map s') \<and>
                  set (block_map s') = insert (block + header_size + n) (set (block_map s)))) \<and>
         (\<not> unat n + unat header_size + 4 \<le> unat (blk_size hdr) \<longrightarrow> block_split s block n = Some s) \<and>
         (is_free hdr \<and> block < arena_base arena + arena_size arena \<longrightarrow>
            (\<exists>s'. block_alloc_loop s arena n block = Some (block + header_size, s') \<and>
                  memory s' block =
                    Some (if unat n + unat header_size + 4 \<le> unat (blk_size hdr)
                          then hdr\<lparr>blk_size := n, is_free := False, is_last := False\<rparr>
                          else hdr\<lparr>is_free := False\<rparr>)))"
proof -
  have n20: "unat n + 20 < 2 ^ 64"
    using range fit by (simp add: word_le_nat_alt unat_header_size)
  have cond: "(n + header_size + 4 \<le> blk_size hdr) = (unat n + unat header_size + 4 \<le> unat (blk_size hdr))"
    using unat_plus_20(1) [OF n20] by (simp add: word_le_nat_alt unat_header_size add.commute)
  have ne: "block + header_size + n \<noteq> block"
    using unat_plus_20(2) [OF n20] by (simp add: add.assoc add.commute)
  have sub: "unat n + unat header_size + 4 \<le> unat (blk_size hdr) \<Longrightarrow>
      unat (blk_size hdr - n - header_size) = unat (blk_size hdr) - unat n - unat header_size"
  proof -
    assume room: "unat n + unat header_size + 4 \<le> unat (blk_size hdr)"
    have "unat (blk_size hdr - n) = unat (blk_size hdr) - unat n"
      using fit by (simp add: unat_sub)
    moreover have "header_size \<le> blk_size hdr - n"
      using room calculation by (simp add: word_le_nat_alt)
    ultimately show ?thesis
      by (simp add: unat_sub)
  qed
  have split: "block_split s block n =
      (if unat n + unat header_size + 4 \<le> unat (blk_size hdr)
       then Some (s\<lparr>memory := (memory s)(block + header_size + n \<mapsto>
                       \<lparr>blk_size = blk_size hdr - n - header_size, is_free = True,
                          is_first = False, is_last = is_last hdr\<rparr>,
                     block \<mapsto> hdr\<lparr>blk_size := n, is_last := False\<rparr>),
                   block_map := List.insert (block + header_size + n) (block_map s)\<rparr>)
       else Some s)"
    using h al ne by (simp add: block_split_def Let_def cond)
  have hit: "is_free hdr \<Longrightarrow> block < arena_base arena + arena_size arena \<Longrightarrow>
      block_alloc_loop s arena n block =
        (case block_split s block n of
           None \<Rightarrow> None
         | Some s1 \<Rightarrow>
             (case write_is_free s1 block False of
                None \<Rightarrow> None
              | Some s2 \<Rightarrow> Some (block + header_size, s2)))"
    using h fit by (intro block_alloc_loop_hit) auto
  show ?thesis
  proof (intro conjI impI)
    assume "unat n + unat header_size + 4 \<le> unat (blk_size hdr)"
    then show "\<exists>s'. block_split s block n = Some s' \<and>
                  memory s' block = Some (hdr\<lparr>blk_size := n, is_last := False\<rparr>) \<and>
                  memory s' (block + header_size + n) =
                    Some \<lparr>blk_size = blk_size hdr - n - header_size, is_free = True,
                          is_first = False, is_last = is_last hdr\<rparr> \<and>
                  unat (blk_size hdr - n - header_size) = unat (blk_size hdr) - unat n - unat header_size \<and>
                  block + header_size + n \<in> set (block_map s') \<and>
                  set (block_map s') = insert (block + header_size + n) (set (block_map s))"
      using ne sub by (simp add: split)
  next
    assume "\<not> unat n + unat header_size + 4 \<le> unat (blk_size hdr)"
    then show "block_split s block n = Some s"
      by (simp add: split)
  next
    assume "is_free hdr \<and> block < arena_base arena + arena_size arena"
    then show "\<exists>s'. block_alloc_loop s arena n block = Some (block + header_size, s') \<and>
                  memory s' block =
                    Some (if unat n + unat header_size + 4 \<le> unat (blk_size hdr)
                          then hdr\<lparr>blk_size := n, is_free := False, is_last := False\<rparr>
                          else hdr\<lparr>is_free := False\<rparr>)"
      using h by (simp add: hit split write_is_free_def)
  qed
qed

text \<open>The first arena's block of 4080 bytes is split for 200 bytes and left whole for 4076.\<close>

theorem block_split_spec_witness:
  "(\<exists>s'. block_split one_arena 0x10000 200 = Some s' \<and>
      memory s' 0x10000 = Some \<lparr>blk_size = 200, is_free = True, is_first = True, is_last = False\<rparr> \<and>
      memory s' 0x100D8 = Some \<lparr>blk_size = 3864, is_free = True, is_first = False, is_last = True\<rparr> \<and>
      0x100D8 \<in> set (block_map s')) \<and>
   block_split one_arena 0x10000 4076 = Some one_arena \<and>
   (\<exists>s'. block_alloc_loop one_arena \<lparr>arena_size = 4096, arena_base = 0x10000\<rparr> 4076 0x10000
            = Some (0x10010, s') \<and>
      memory s' 0x10000 = Some \<lparr>blk_size = 4080, is_free = False, is_first = True, is_last = True\<rparr>)"
proof -
  have m: "memory one_arena 0x10000 =
      Some \<lparr>blk_size = 4080, is_free = True, is_first = True, is_last = True\<rparr>"
    by (simp add: one_arena_def)
  have a: "align 200 = 200" "align 4076 = 4076"
    by (simp_all add: align_def)
  show ?thesis
    using block_split_spec [OF m a(1), of "\<lparr>arena_size = 4096, arena_base = 0x10000\<rparr>"]
      block_split_spec [OF m a(2), of "\<lparr>arena_size = 4096, arena_base = 0x10000\<rparr>"]
    by (simp add: header_size_def) blast
qed

text \<open>
  C8. \<open>mem_free\<close> does nothing for a null pointer and for a pointer whose header
  address is not a key of the block map; for a tracked pointer it sets \<open>is_free\<close>,
  whatever it was, and runs the coalescing pass; freeing the same pointer again
  leaves the state it reached.
\<close>

theorem mem_free_spec:
  "mem_free s 0 = Some s \<and>
   (ptr - header_size \<notin> set (block_map s) \<longrightarrow> mem_free s ptr = Some s) \<and>
   (ptr \<noteq> 0 \<and> ptr - header_size \<in> set (block_map s) \<longrightarrow>
      (\<forall>hdr. memory s (ptr - header_size) = Some hdr \<longrightarrow>
         mem_free s ptr =
           block_unite (s\<lparr>memory := (memory s)(ptr - header_size \<mapsto> hdr\<lparr>is_free := True\<rparr>)\<rparr>))) \<and>
   (\<forall>s'. mem_free s ptr = Some s' \<longrightarrow> mem_free s' ptr = Some s')"
proof (intro conjI impI allI)
  show "mem_free s 0 = Some s"
    by (simp add: mem_free_def)
  show "mem_free s ptr = Some s" if "ptr - header_size \<notin> set (block_map s)"
    using that by (simp add: mem_free_def)
  show "mem_free s ptr =
      block_unite (s\<lparr>memory := (memory s)(ptr - header_size \<mapsto> hdr\<lparr>is_free := True\<rparr>)\<rparr>)"
    if "ptr \<noteq> 0 \<and> ptr - header_size \<in> set (block_map s)"
      and "memory s (ptr - header_size) = Some hdr" for hdr
    using that by (simp add: mem_free_def write_is_free_def)
next
  fix s' assume ret: "mem_free s ptr = Some s'"
  let ?b = "ptr - header_size"
  show "mem_free s' ptr = Some s'"
  proof (cases "ptr = 0 \<or> ?b \<notin> set (block_map s)")
    case True
    with ret have "s' = s" by (auto simp: mem_free_def split: if_splits)
    with ret show ?thesis by simp
  next
    case False
    with ret obtain s1 where w: "write_is_free s ?b True = Some s1"
      and u: "block_unite s1 = Some s'"
      by (auto simp: mem_free_def split: option.splits)
    from w have fr: "map_option is_free (memory s1 ?b) = Some True"
      by (auto simp: write_is_free_def split: option.splits)
    show ?thesis
    proof (cases "?b \<in> set (block_map s')")
      case False
      then show ?thesis by (simp add: mem_free_def)
    next
      case True
      from block_unite_fixed(3) [OF u, of ?b] fr
      obtain hdr' where h': "memory s' ?b = Some hdr'" "is_free hdr' = True"
        by auto
      then have "write_is_free s' ?b True = Some s'"
        by (rule write_is_free_same)
      with True False block_unite_fixed(1) [OF u] show ?thesis
        by (simp add: mem_free_def)
    qed
  qed
qed

text \<open>Freeing the last block of the three-block arena merges all three.\<close>

theorem mem_free_spec_witness:
  "mem_free fragmented 0 = Some fragmented \<and>
   mem_free fragmented 0x5000 = Some fragmented \<and>
   (\<exists>s'. mem_free fragmented 0x10060 = Some s' \<and> block_map s' = [0x10000] \<and>
      memory s' 0x10000 = Some \<lparr>blk_size = 4080, is_free = True, is_first = True, is_last = True\<rparr> \<and>
      mem_free s' 0x10060 = Some s')"
proof -
  have t: "0x5000 - header_size \<notin> set (block_map fragmented)"
    by (simp add: fragmented_def header_size_def)
  have "\<exists>s'. mem_free fragmented 0x10060 = Some s' \<and> block_map s' = [0x10000] \<and>
      memory s' 0x10000 = Some \<lparr>blk_size = 4080, is_free = True, is_first = True, is_last = True\<rparr>"
    by (simp add: mem_free_def write_is_free_def block_unite_def fragmented_def
        block_unite_loop.simps header_size_def Let_def)
  then show ?thesis
    using mem_free_spec [of fragmented "0x5000"] mem_free_spec [of fragmented "0x10060"] t
    by blast
qed

text \<open>
  C9. \<open>mem_realloc\<close> of a pointer whose header address is not tracked returns null and
  leaves the state as it is. When it returns null for a tracked pointer, it is because
  the block was too small and \<open>mem_alloc\<close> returned null; then every tracked block is
  still tracked with its header unchanged, and so is the whole state when
  \<open>VirtualAlloc\<close> refused. This needs that no header sits in the last 16 bytes of the
  address space and that \<open>VirtualAlloc\<close> grants neither those bytes nor the address of a
  tracked block.
\<close>

theorem mem_realloc_failure:
  "(ptr \<noteq> 0 \<and> ptr - header_size \<notin> set (block_map s) \<longrightarrow>
      mem_realloc VirtualAlloc s ptr n = Some (0, s)) \<and>
   (ptr \<noteq> 0 \<and> ptr - header_size \<in> set (block_map s) \<and>
    memory s (- header_size) = None \<and>
    VirtualAlloc (new_arena_size s n) \<notin> insert (- header_size) (set (block_map s)) \<and>
    mem_realloc VirtualAlloc s ptr n = Some (0, s') \<longrightarrow>
      (\<exists>hdr. memory s (ptr - header_size) = Some hdr \<and> blk_size hdr < align n \<and>
         mem_alloc VirtualAlloc s (align n) = Some (0, s')) \<and>
      (\<forall>b\<in>set (block_map s). b \<in> set (block_map s') \<and> memory s' b = memory s b) \<and>
      (VirtualAlloc (new_arena_size s n) = 0 \<longrightarrow> s' = s))"
proof (intro conjI impI)
  assume "ptr \<noteq> 0 \<and> ptr - header_size \<notin> set (block_map s)"
  then show "mem_realloc VirtualAlloc s ptr n = Some (0, s)"
    by (simp add: mem_realloc_def Let_def)
next
  assume a: "ptr \<noteq> 0 \<and> ptr - header_size \<in> set (block_map s) \<and>
    memory s (- header_size) = None \<and>
    VirtualAlloc (new_arena_size s n) \<notin> insert (- header_size) (set (block_map s)) \<and>
    mem_realloc VirtualAlloc s ptr n = Some (0, s')"
  then obtain hdr where h: "memory s (ptr - header_size) = Some hdr"
    by (auto simp: mem_realloc_def Let_def split: option.splits)
  from a h have grow: "blk_size hdr < align n"
    by (auto simp: mem_realloc_def Let_def split: option.splits if_splits)
  from a h grow have alloc: "mem_alloc VirtualAlloc s (align n) = Some (0, s')"
    by (auto simp: mem_realloc_def Let_def split: option.splits if_splits)
  from h grow alloc show "\<exists>hdr. memory s (ptr - header_size) = Some hdr \<and> blk_size hdr < align n \<and>
         mem_alloc VirtualAlloc s (align n) = Some (0, s')"
    by blast
  from a have top: "memory s (- header_size) = None"
    and va: "VirtualAlloc (new_arena_size s (align n)) \<noteq> - header_size"
    and fresh: "VirtualAlloc (new_arena_size s (align n)) \<notin> set (block_map s)"
    by (simp_all add: new_arena_size_align)
  note cases = mem_alloc_null [OF alloc top va]
  from cases fresh show "\<forall>b\<in>set (block_map s). b \<in> set (block_map s') \<and> memory s' b = memory s b"
    by auto
  from cases show "s' = s" if "VirtualAlloc (new_arena_size s n) = 0"
    using that by (auto simp: new_arena_size_align)
qed

theorem mem_realloc_failure_witness:
  "mem_realloc (\<lambda>_. 0) fragmented 0x5000 100 = Some (0, fragmented) \<and>
   mem_realloc (\<lambda>_. 0) fragmented 0x10060 5000 = Some (0, fragmented) \<and>
   mem_alloc (\<lambda>_. 0) fragmented (align 5000) = Some (0, fragmented) \<and>
   memory fragmented 0x10050 =
     Some \<lparr>blk_size = 4000, is_free = False, is_first = False, is_last = True\<rparr>"
proof -
  have r: "mem_realloc (\<lambda>_. 0) fragmented 0x10060 5000 = Some (0, fragmented)"
    by (simp add: run_simps fragmented_def)
  have u: "0x5000 - header_size \<notin> set (block_map fragmented)"
    "0x10060 - header_size \<in> set (block_map fragmented)"
    "memory fragmented (- header_size) = None"
    "(0 :: addr) \<notin> insert (- header_size) (set (block_map fragmented))"
    by (simp_all add: fragmented_def header_size_def)
  show ?thesis
    using mem_realloc_failure [of "0x5000" fragmented "\<lambda>_. 0" 100 fragmented]
      mem_realloc_failure [of "0x10060" fragmented "\<lambda>_. 0" 5000 fragmented] r u
    by (auto simp: fragmented_def header_size_def)
qed

text \<open>
  C10. For a tracked pointer, \<open>mem_realloc\<close> with size 0 returns the pointer itself:
  the aligned size 0 passes the in-place size check, the block is split down to 0
  bytes where it has room for a header and 4 bytes, and its \<open>is_free\<close> flag is not
  touched; \<open>mem_alloc\<close> with size 0 returns null.
\<close>

theorem mem_realloc_zero:
  assumes "ptr \<noteq> 0" and "ptr - header_size \<in> set (block_map s)"
    and "memory s (ptr - header_size) = Some hdr"
  shows "align 0 \<le> blk_size hdr \<and> mem_alloc VirtualAlloc s 0 = Some (0, s) \<and>
    (\<exists>s' hdr'. mem_realloc VirtualAlloc s ptr 0 = Some (ptr, s') \<and>
       block_split s (ptr - header_size) 0 = Some s' \<and>
       ptr - header_size \<in> set (block_map s') \<and>
       memory s' (ptr - header_size) = Some hdr' \<and>
       is_free hdr' = is_free hdr \<and>
       blk_size hdr' = (if 20 \<le> blk_size hdr then 0 else blk_size hdr))"
proof -
  have ne: "ptr - header_size + header_size \<noteq> ptr - header_size"
    by (simp add: header_size_def)
  show ?thesis
    using assms ne
    by (auto simp: mem_realloc_def mem_alloc_def block_split_def align_0 Let_def header_size_def)
qed

text \<open>The last block of the three-block arena, reallocated to 0 bytes.\<close>

theorem mem_realloc_zero_witness:
  "\<exists>s'. mem_realloc (\<lambda>_. 0) fragmented 0x10060 0 = Some (0x10060, s') \<and>
     memory s' 0x10050 = Some \<lparr>blk_size = 0, is_free = False, is_first = False, is_last = False\<rparr> \<and>
     mem_alloc (\<lambda>_. 0) fragmented 0 = Some (0, fragmented)"
proof -
  have "memory fragmented (0x10060 - header_size) =
      Some \<lparr>blk_size = 4000, is_free = False, is_first = False, is_last = True\<rparr>"
    by (simp add: fragmented_def header_size_def)
  moreover have "0x10060 - header_size \<in> set (block_map fragmented)"
    by (simp add: fragmented_def header_size_def)
  ultimately show ?thesis
    using mem_realloc_zero [of "0x10060" fragmented _ "\<lambda>_. 0"]
    by (auto simp: header_size_def block_split_def align_def Let_def)
qed

end
